theory Spec2Isabelle
  imports Complex_Main "HOL-Library.Log_Nat"
begin

section \<open>Python values used by \<open>get_yt_transcript.py\<close>\<close>

subsection \<open>Strings and exceptions\<close>

text \<open>
  A Python \<open>str\<close> is a sequence of Unicode code points, so it is modelled as a list of
  natural numbers; \<open>len\<close> is \<open>length\<close>. \<open>str\<close> turns an (ASCII) literal of the source
  into this representation.
\<close>

type_synonym pystr = "nat list"

definition str :: "string \<Rightarrow> pystr" where
  "str s = map of_char s"

text \<open>The exceptions the modelled code can raise. \<open>OtherError\<close> carries the message of an
  exception raised by an external collaborator (the transcript service, the file system).\<close>

datatype pyerror =
    ValueError
  | OverflowError
  | ZeroDivisionError
  | ImportError
  | OtherError pystr

definition bind_err :: "pyerror + 'a \<Rightarrow> ('a \<Rightarrow> pyerror + 'b) \<Rightarrow> pyerror + 'b" where
  "bind_err r f = (case r of Inl e \<Rightarrow> Inl e | Inr v \<Rightarrow> f v)"

subsection \<open>Floats: IEEE 754 binary64 with round-to-nearest-even\<close>

text \<open>
  A Python \<open>float\<close> is a binary64 number. A finite one is modelled by its exact rational
  value; the sign of zero is dropped (the program only ever observes a float through
  \<open>int()\<close>). Every arithmetic operation computes the exact rational result and rounds it
  with \<open>rnd\<close>, as IEEE 754 prescribes; C's \<open>fmod\<close> and \<open>floor\<close> are exact.
\<close>

datatype pyfloat = Finite rat | PosInf | NegInf | NaN

text \<open>\<open>ilog2 x\<close> is \<open>\<lfloor>log\<^sub>2 x\<rfloor>\<close> for a positive rational \<open>x\<close>.\<close>

definition ilog2 :: "rat \<Rightarrow> int" where
  "ilog2 x = (if 1 \<le> x then int (floorlog 2 (nat \<lfloor>x\<rfloor>)) - 1
              else - int (floorlog 2 (nat (\<lceil>1 / x\<rceil> - 1))))"

text \<open>The exponent of the unit in the last place of the binade of \<open>x\<close>: 53 significant bits,
  and the subnormal range below \<open>2 powi (- 1022)\<close> has the spacing \<open>2 powi (- 1074)\<close>.\<close>

definition ulp_exp :: "rat \<Rightarrow> int" where
  "ulp_exp x = max (ilog2 \<bar>x\<bar>) (- 1022) - 52"

definition round_half_even :: "rat \<Rightarrow> int" where
  "round_half_even y =
     (let n = \<lfloor>y\<rfloor>; d = y - of_int n
      in if d < 1 / 2 then n else if 1 / 2 < d then n + 1 else if even n then n else n + 1)"

text \<open>A result of magnitude \<open>2 ^ 1024\<close> or more, after rounding with an unbounded exponent,
  overflows to an infinity.\<close>

definition overflow_threshold :: rat where
  "overflow_threshold = 2 ^ 1024"

definition rnd :: "rat \<Rightarrow> pyfloat" where
  "rnd x =
     (if x = 0 then Finite 0
      else let u = 2 powi ulp_exp x; r = of_int (round_half_even (x / u)) * u
           in if overflow_threshold \<le> r then PosInf
              else if r \<le> - overflow_threshold then NegInf
              else Finite r)"

text \<open>A rational is (the value of) a binary64 number when rounding leaves it unchanged.\<close>

definition is_double :: "rat \<Rightarrow> bool" where
  "is_double x = (rnd x = Finite x)"

text \<open>A decimal float literal of the source or of a test, such as \<open>3661.999\<close>, denotes the
  binary64 number nearest to it.\<close>

definition float_lit :: "rat \<Rightarrow> pyfloat" where
  "float_lit q = rnd q"

text \<open>\<open>x + y\<close> on floats.\<close>

fun float_add :: "pyfloat \<Rightarrow> pyfloat \<Rightarrow> pyfloat" where
  "float_add (Finite a) (Finite b) = rnd (a + b)"
| "float_add NaN _ = NaN"
| "float_add _ NaN = NaN"
| "float_add PosInf NegInf = NaN"
| "float_add NegInf PosInf = NaN"
| "float_add PosInf _ = PosInf"
| "float_add _ PosInf = PosInf"
| "float_add NegInf _ = NegInf"
| "float_add _ NegInf = NegInf"

text \<open>
  The right operand of \<open>//\<close>, \<open>%\<close> and \<open>*\<close> is an integer literal everywhere in the program
  (3600, 60, 1, 1000), which Python converts to a float exactly; the three operators are
  therefore modelled with a finite right operand \<open>w\<close>, given by its value.

  C's \<open>fmod x w\<close> is exact and has the sign of \<open>x\<close>.
\<close>

definition trunc :: "rat \<Rightarrow> int" where
  "trunc x = (if 0 \<le> x then \<lfloor>x\<rfloor> else \<lceil>x\<rceil>)"

definition fmod :: "rat \<Rightarrow> rat \<Rightarrow> rat" where
  "fmod x w = x - w * of_int (trunc (x / w))"

text \<open>\<open>d / w\<close> in C for a float \<open>d\<close> and a finite non-zero \<open>w\<close>.\<close>

fun c_div :: "pyfloat \<Rightarrow> rat \<Rightarrow> pyfloat" where
  "c_div (Finite d) w = rnd (d / w)"
| "c_div PosInf w = (if 0 < w then PosInf else NegInf)"
| "c_div NegInf w = (if 0 < w then NegInf else PosInf)"
| "c_div NaN w = NaN"

text \<open>The end of CPython's \<open>_float_div_mod\<close>: the quotient is snapped to the nearest integral
  value (\<open>floor\<close>, plus one when the fraction left exceeds one half).\<close>

fun snap_floor :: "pyfloat \<Rightarrow> pyfloat" where
  "snap_floor (Finite d) =
     (let fl = of_int \<lfloor>d\<rfloor>
      in case rnd (d - fl) of
           Finite r \<Rightarrow> if 1 / 2 < r then rnd (fl + 1) else Finite fl
         | _ \<Rightarrow> Finite fl)"
| "snap_floor f = f"

text \<open>
  CPython's \<open>_float_div_mod(vx, wx)\<close> on finite \<open>vx\<close> and finite non-zero \<open>wx\<close>:
  \<^verbatim>\<open>
    mod = fmod(vx, wx);
    div = (vx - mod) / wx;
    if (mod) { if ((wx < 0) != (mod < 0)) { mod += wx; div -= 1.0; } }
    if (div) { floordiv = floor(div); if (div - floordiv > 0.5) floordiv += 1.0; }
  \<close>
  It returns the pair \<open>(floordiv, mod)\<close>.
\<close>

definition float_div_mod :: "rat \<Rightarrow> rat \<Rightarrow> pyfloat \<times> pyfloat" where
  "float_div_mod vx wx =
     (let m = fmod vx wx;
          d = c_div (rnd (vx - m)) wx;
          adjust = (m \<noteq> 0 \<and> ((wx < 0) \<noteq> (m < 0)))
      in (snap_floor (if adjust then float_add d (Finite (- 1)) else d),
          if adjust then rnd (m + wx) else Finite m))"

text \<open>\<open>v // w\<close> and \<open>v % w\<close> on a float \<open>v\<close>. With a dividend that is not finite, \<open>fmod\<close> is
  NaN and so are both results.\<close>

definition float_floordiv :: "pyfloat \<Rightarrow> rat \<Rightarrow> pyerror + pyfloat" where
  "float_floordiv v w =
     (if w = 0 then Inl ZeroDivisionError
      else case v of Finite vx \<Rightarrow> Inr (fst (float_div_mod vx w)) | _ \<Rightarrow> Inr NaN)"

definition float_mod :: "pyfloat \<Rightarrow> rat \<Rightarrow> pyerror + pyfloat" where
  "float_mod v w =
     (if w = 0 then Inl ZeroDivisionError
      else case v of Finite vx \<Rightarrow> Inr (snd (float_div_mod vx w)) | _ \<Rightarrow> Inr NaN)"

text \<open>\<open>v * w\<close> for a finite \<open>w\<close>.\<close>

fun float_mul :: "pyfloat \<Rightarrow> rat \<Rightarrow> pyfloat" where
  "float_mul (Finite a) w = rnd (a * w)"
| "float_mul PosInf w = (if w = 0 then NaN else if 0 < w then PosInf else NegInf)"
| "float_mul NegInf w = (if w = 0 then NaN else if 0 < w then NegInf else PosInf)"
| "float_mul NaN w = NaN"

text \<open>\<open>int(v)\<close>: truncation towards zero; \<open>ValueError\<close> on NaN, \<open>OverflowError\<close> on an
  infinity.\<close>

fun py_int :: "pyfloat \<Rightarrow> pyerror + int" where
  "py_int (Finite x) = Inr (trunc x)"
| "py_int NaN = Inl ValueError"
| "py_int _ = Inl OverflowError"

subsection \<open>Integers as text\<close>

text \<open>\<open>str(n)\<close> for a natural number, and the format specification \<open>{n:0wd}\<close>: at least
  \<open>w\<close> characters, zeros between the sign and the digits; a longer number is not cut.\<close>

fun digits10 :: "nat \<Rightarrow> pystr" where
  "digits10 n = (if n < 10 then [48 + n] else digits10 (n div 10) @ [48 + n mod 10])"

definition str_int :: "int \<Rightarrow> pystr" where
  "str_int i = (if i < 0 then str ''-'' else []) @ digits10 (nat \<bar>i\<bar>)"

definition format_d :: "nat \<Rightarrow> int \<Rightarrow> pystr" where
  "format_d w i =
     (let sign = (if i < 0 then str ''-'' else []); ds = digits10 (nat \<bar>i\<bar>)
      in sign @ replicate (w - length sign - length ds) 48 @ ds)"

section \<open>The time formatter\<close>

text \<open>The f-string \<^verbatim>\<open>f"{hours:02d}:{minutes:02d}:{secs:02d},{millis:03d}"\<close>.\<close>

definition time_text :: "int \<Rightarrow> int \<Rightarrow> int \<Rightarrow> int \<Rightarrow> pystr" where
  "time_text hours minutes secs millis =
     format_d 2 hours @ str '':'' @ format_d 2 minutes @ str '':'' @ format_d 2 secs
     @ str '','' @ format_d 3 millis"

text \<open>
  \<^verbatim>\<open>
  def format_time_srt(seconds):
      hours = int(seconds // 3600)
      minutes = int((seconds % 3600) // 60)
      secs = int(seconds % 60)
      millis = int((seconds % 1) * 1000)
      return f"{hours:02d}:{minutes:02d}:{secs:02d},{millis:03d}"
  \<close>
\<close>

definition format_time_srt :: "pyfloat \<Rightarrow> pyerror + pystr" where
  "format_time_srt seconds =
     bind_err (bind_err (float_floordiv seconds 3600) py_int) (\<lambda>hours.
     bind_err (bind_err (bind_err (float_mod seconds 3600) (\<lambda>r. float_floordiv r 60)) py_int)
       (\<lambda>minutes.
     bind_err (bind_err (float_mod seconds 60) py_int) (\<lambda>secs.
     bind_err (bind_err (bind_err (float_mod seconds 1) (\<lambda>f. Inr (float_mul f 1000))) py_int)
       (\<lambda>millis.
     Inr (time_text hours minutes secs millis)))))"

text \<open>
  The reference the specification gives for the formatter, in exact arithmetic:
  hours = floor(seconds/3600), minutes = floor(remainder/60), seconds = floor(remainder),
  milliseconds = floor(fractional part * 1000).
\<close>

definition ref_hours :: "rat \<Rightarrow> int" where
  "ref_hours s = \<lfloor>s / 3600\<rfloor>"

definition ref_minutes :: "rat \<Rightarrow> int" where
  "ref_minutes s = \<lfloor>(s - 3600 * of_int (ref_hours s)) / 60\<rfloor>"

definition ref_seconds :: "rat \<Rightarrow> int" where
  "ref_seconds s = \<lfloor>s - 3600 * of_int (ref_hours s) - 60 * of_int (ref_minutes s)\<rfloor>"

definition ref_fraction :: "rat \<Rightarrow> rat" where
  "ref_fraction s =
     s - 3600 * of_int (ref_hours s) - 60 * of_int (ref_minutes s) - of_int (ref_seconds s)"

definition format_time_ref :: "rat \<Rightarrow> pystr" where
  "format_time_ref s =
     time_text (ref_hours s) (ref_minutes s) (ref_seconds s) \<lfloor>ref_fraction s * 1000\<rfloor>"

definition is_digit :: "nat \<Rightarrow> bool" where
  "is_digit c = (48 \<le> c \<and> c \<le> 57)"

section \<open>Transcript entries and the three renderers\<close>

subsection \<open>String operations\<close>

text \<open>
  \<open>str.isspace\<close> of one code point: CPython's \<open>_PyUnicode_IsWhitespace\<close>, the code points of
  bidirectional type WS, B or S or of category Zs. \<open>s.strip()\<close> removes them at both ends.
\<close>

definition py_isspace :: "nat \<Rightarrow> bool" where
  "py_isspace c =
     ((9 \<le> c \<and> c \<le> 13) \<or> (28 \<le> c \<and> c \<le> 32) \<or> c = 133 \<or> c = 160 \<or> c = 5760
      \<or> (8192 \<le> c \<and> c \<le> 8202) \<or> c = 8232 \<or> c = 8233 \<or> c = 8239 \<or> c = 8287
      \<or> c = 12288)"

definition py_strip :: "pystr \<Rightarrow> pystr" where
  "py_strip s = rev (dropWhile py_isspace (rev (dropWhile py_isspace s)))"

text \<open>\<open>sep.join(xs)\<close>, and the newline \<^verbatim>\<open>"\n"\<close>.\<close>

fun join :: "'a list \<Rightarrow> 'a list list \<Rightarrow> 'a list" where
  "join sep [] = []"
| "join sep [x] = x"
| "join sep (x # y # ys) = x @ sep @ join sep (y # ys)"

definition NL :: pystr where
  "NL = [10]"

subsection \<open>Entries and loops\<close>

text \<open>
  One element of \<open>transcript_data\<close>: a dictionary with the keys \<open>'text'\<close>, \<open>'start'\<close> and
  \<open>'duration'\<close>, as the transcript service's \<open>to_raw_data()\<close> returns it.
\<close>

record entry =
  entry_text :: pystr
  entry_start :: pyfloat
  entry_duration :: pyfloat

text \<open>
  The renderers are written in state-passing style. The state holds the list object
  \<open>transcript_data\<close> that the caller passed in and the list the loop appends to; a
  statement returns the new state together with \<open>Inr ()\<close>, or with the exception it
  raises. \<open>for_each\<close> is the \<^verbatim>\<open>for\<close> loop: it stops at the first exception.
\<close>

record 'a locals =
  transcript_data :: "entry list"
  out_lines :: "'a list"

fun for_each :: "('x \<Rightarrow> 's \<Rightarrow> (pyerror + unit) \<times> 's) \<Rightarrow> 'x list \<Rightarrow> 's \<Rightarrow> (pyerror + unit) \<times> 's"
  where
  "for_each body [] st = (Inr (), st)"
| "for_each body (x # xs) st =
     (case body x st of
        (Inl e, st') \<Rightarrow> (Inl e, st')
      | (Inr u, st') \<Rightarrow> for_each body xs st')"

subsection \<open>The subtitle renderer\<close>

text \<open>
  \<^verbatim>\<open>
  def create_srt(transcript_data):
      srt_lines = []
      for i, entry in enumerate(transcript_data, 1):
          start_time = format_time_srt(entry['start'])
          end_time = format_time_srt(entry['start'] + entry['duration'])
          text = entry['text'].strip()
          srt_lines.append(str(i))
          srt_lines.append(f"{start_time} --> {end_time}")
          srt_lines.append(text)
          srt_lines.append("")
      return "\n".join(srt_lines)
  \<close>
\<close>

definition create_srt_body :: "nat \<times> entry \<Rightarrow> pystr locals \<Rightarrow> (pyerror + unit) \<times> pystr locals"
  where
  "create_srt_body ie st =
     (case ie of (i, entry) \<Rightarrow>
      case format_time_srt (entry_start entry) of
        Inl e \<Rightarrow> (Inl e, st)
      | Inr start_time \<Rightarrow>
         (case format_time_srt (float_add (entry_start entry) (entry_duration entry)) of
            Inl e \<Rightarrow> (Inl e, st)
          | Inr end_time \<Rightarrow>
             (let text = py_strip (entry_text entry)
              in (Inr (),
                  st\<lparr>out_lines := out_lines st
                       @ [str_int (int i), start_time @ str '' --> '' @ end_time, text, []]\<rparr>))))"

text \<open>\<open>create_srt_run\<close> gives the result of the call and \<open>transcript_data\<close> as the call leaves
  it; \<open>create_srt\<close> is the result alone.\<close>

definition create_srt_run :: "entry list \<Rightarrow> (pyerror + pystr) \<times> entry list" where
  "create_srt_run data =
     (case for_each create_srt_body (enumerate 1 data) \<lparr>transcript_data = data, out_lines = []\<rparr> of
        (Inl e, st) \<Rightarrow> (Inl e, transcript_data st)
      | (Inr u, st) \<Rightarrow> (Inr (join NL (out_lines st)), transcript_data st))"

definition create_srt :: "entry list \<Rightarrow> pyerror + pystr" where
  "create_srt data = fst (create_srt_run data)"

subsection \<open>The flattened text renderer\<close>

text \<open>
  \<^verbatim>\<open>
  def create_markdown(transcript_data):
      md_lines = []
      for entry in transcript_data:
          text = entry['text'].strip()
          if text:
              md_lines.append(text)
      return "\n".join(md_lines)
  \<close>
\<close>

definition create_markdown_body :: "entry \<Rightarrow> pystr locals \<Rightarrow> (pyerror + unit) \<times> pystr locals"
  where
  "create_markdown_body entry st =
     (let text = py_strip (entry_text entry)
      in if text \<noteq> [] then (Inr (), st\<lparr>out_lines := out_lines st @ [text]\<rparr>)
         else (Inr (), st))"

definition create_markdown_run :: "entry list \<Rightarrow> (pyerror + pystr) \<times> entry list" where
  "create_markdown_run data =
     (case for_each create_markdown_body data \<lparr>transcript_data = data, out_lines = []\<rparr> of
        (Inl e, st) \<Rightarrow> (Inl e, transcript_data st)
      | (Inr u, st) \<Rightarrow> (Inr (join NL (out_lines st)), transcript_data st))"

definition create_markdown :: "entry list \<Rightarrow> pyerror + pystr" where
  "create_markdown data = fst (create_markdown_run data)"

subsection \<open>JSON text\<close>

text \<open>The Python values \<open>create_json\<close> hands to \<open>json.dumps\<close>: strings, lists and
  dictionaries (in insertion order).\<close>

datatype json = JStr pystr | JArr "json list" | JObj "(pystr \<times> json) list"

text \<open>
  \<open>json.dumps(v, indent=2, ensure_ascii=False)\<close>. A string is written between double
  quotes with \<^verbatim>\<open>"\<close>, \<^verbatim>\<open>\\<close> and the control characters below U+0020 escaped
  (\<^verbatim>\<open>\n \r \t \b \f\<close>, otherwise \<^verbatim>\<open>\u00XX\<close> in lower-case hexadecimal); every other
  code point is written as it is. With an indent the item separator is a comma followed
  by a newline and the indentation, the key separator is a colon and a space, and an
  empty list or dictionary is \<^verbatim>\<open>[]\<close> or \<^verbatim>\<open>{}\<close>.
\<close>

definition hex_digit :: "nat \<Rightarrow> nat" where
  "hex_digit d = (if d < 10 then 48 + d else 87 + d)"

definition json_escape :: "nat \<Rightarrow> pystr" where
  "json_escape c =
     (if c = 34 then [92, 34]
      else if c = 92 then [92, 92]
      else if c = 10 then [92, 110]
      else if c = 13 then [92, 114]
      else if c = 9 then [92, 116]
      else if c = 8 then [92, 98]
      else if c = 12 then [92, 102]
      else if c < 32 then [92, 117, 48, 48, hex_digit (c div 16), hex_digit (c mod 16)]
      else [c])"

definition json_string :: "pystr \<Rightarrow> pystr" where
  "json_string s = [34] @ concat (map json_escape s) @ [34]"

definition newline_indent :: "nat \<Rightarrow> pystr" where
  "newline_indent level = NL @ replicate (2 * level) 32"

fun json_dumps_at :: "nat \<Rightarrow> json \<Rightarrow> pystr" where
  "json_dumps_at level (JStr s) = json_string s"
| "json_dumps_at level (JArr vs) =
     (if vs = [] then str ''[]''
      else str ''['' @ newline_indent (level + 1)
           @ join (str '','' @ newline_indent (level + 1)) (map (json_dumps_at (level + 1)) vs)
           @ newline_indent level @ str '']'')"
| "json_dumps_at level (JObj kvs) =
     (if kvs = [] then str ''{}''
      else str ''{'' @ newline_indent (level + 1)
           @ join (str '','' @ newline_indent (level + 1))
               (map (\<lambda>kv. json_string (fst kv) @ str '': '' @ json_dumps_at (level + 1) (snd kv)) kvs)
           @ newline_indent level @ str ''}'')"

definition json_dumps :: "json \<Rightarrow> pystr" where
  "json_dumps v = json_dumps_at 0 v"

subsection \<open>The structured renderer\<close>

text \<open>
  \<^verbatim>\<open>
  def create_json(transcript_data):
      json_data = []
      for entry in transcript_data:
          start_time = format_time_srt(entry['start'])
          end_time = format_time_srt(entry['start'] + entry['duration'])
          json_data.append({
              "in_ts": start_time,
              "out_ts": end_time,
              "text": entry['text'].strip()
          })
      return json.dumps(json_data, indent=2, ensure_ascii=False)
  \<close>
\<close>

definition create_json_body :: "entry \<Rightarrow> json locals \<Rightarrow> (pyerror + unit) \<times> json locals" where
  "create_json_body entry st =
     (case format_time_srt (entry_start entry) of
        Inl e \<Rightarrow> (Inl e, st)
      | Inr start_time \<Rightarrow>
         (case format_time_srt (float_add (entry_start entry) (entry_duration entry)) of
            Inl e \<Rightarrow> (Inl e, st)
          | Inr end_time \<Rightarrow>
             (Inr (),
              st\<lparr>out_lines := out_lines st
                   @ [JObj [(str ''in_ts'', JStr start_time),
                            (str ''out_ts'', JStr end_time),
                            (str ''text'', JStr (py_strip (entry_text entry)))]]\<rparr>)))"

definition create_json_run :: "entry list \<Rightarrow> (pyerror + pystr) \<times> entry list" where
  "create_json_run data =
     (case for_each create_json_body data \<lparr>transcript_data = data, out_lines = []\<rparr> of
        (Inl e, st) \<Rightarrow> (Inl e, transcript_data st)
      | (Inr u, st) \<Rightarrow> (Inr (json_dumps (JArr (out_lines st))), transcript_data st))"

definition create_json :: "entry list \<Rightarrow> pyerror + pystr" where
  "create_json data = fst (create_json_run data)"

subsection \<open>What the specification says the renderers emit\<close>

text \<open>An entry can be rendered when both of its times can be formatted (the formatter
  raises on a time that is not finite); \<open>formatted t\<close> is then the text of the time \<open>t\<close>.\<close>

definition returns :: "pyerror + 'a \<Rightarrow> bool" where
  "returns r = (case r of Inr v \<Rightarrow> True | Inl e \<Rightarrow> False)"

definition entry_formats :: "entry \<Rightarrow> bool" where
  "entry_formats e =
     (returns (format_time_srt (entry_start e))
      \<and> returns (format_time_srt (float_add (entry_start e) (entry_duration e))))"

definition formatted :: "pyfloat \<Rightarrow> pystr" where
  "formatted t = (case format_time_srt t of Inr s \<Rightarrow> s | Inl e \<Rightarrow> [])"

text \<open>The block of the subtitle format for the entry \<open>e\<close> with counter \<open>i\<close>: the counter, the
  line \<open>start --> end\<close> with \<open>end = start + duration\<close>, the trimmed text and one blank line.\<close>

definition srt_block :: "nat \<Rightarrow> entry \<Rightarrow> pystr list" where
  "srt_block i e =
     [str_int (int i),
      formatted (entry_start e) @ str '' --> ''
        @ formatted (float_add (entry_start e) (entry_duration e)),
      py_strip (entry_text e),
      []]"

text \<open>The record of the structured format for the entry \<open>e\<close>.\<close>

definition json_record :: "entry \<Rightarrow> json" where
  "json_record e =
     JObj [(str ''in_ts'', JStr (formatted (entry_start e))),
           (str ''out_ts'', JStr (formatted (float_add (entry_start e) (entry_duration e)))),
           (str ''text'', JStr (py_strip (entry_text e)))]"

text \<open>The two entries of the specification's end-to-end example:
  \<^verbatim>\<open>{start: 0, duration: 2, text: " hi "}\<close> and \<^verbatim>\<open>{start: 2, duration: 1.5, text: ""}\<close>.\<close>

definition ex_hi :: entry where
  "ex_hi = \<lparr>entry_text = str '' hi '', entry_start = Finite 0, entry_duration = Finite 2\<rparr>"

definition ex_empty :: entry where
  "ex_empty = \<lparr>entry_text = [], entry_start = Finite 2, entry_duration = Finite (3 / 2)\<rparr>"

text \<open>The lines of a text: \<open>s.split("\n")\<close>, the empty text having no line. Two further
  entries for examples: a caption of three lines, the middle one blank, and a plain one.\<close>

fun split_on :: "nat \<Rightarrow> pystr \<Rightarrow> pystr list" where
  "split_on c [] = [[]]"
| "split_on c (x # xs) =
     (if x = c then [] # split_on c xs
      else (case split_on c xs of [] \<Rightarrow> [[x]] | l # ls \<Rightarrow> (x # l) # ls))"

definition lines_of :: "pystr \<Rightarrow> pystr list" where
  "lines_of s = (if s = [] then [] else split_on 10 s)"

definition ex_multiline :: entry where
  "ex_multiline =
     \<lparr>entry_text = str '' a'' @ NL @ NL @ str ''b '', entry_start = Finite 0,
      entry_duration = Finite 2\<rparr>"

definition ex_c :: entry where
  "ex_c = \<lparr>entry_text = str ''c'', entry_start = Finite 2, entry_duration = Finite 2\<rparr>"


section \<open>Reading JSON text back\<close>

text \<open>
  The round trip of the structured renderer is stated against a reader of JSON text, as
  \<open>json.loads\<close> is one: a lexer and a recursive-descent parser for the grammar of RFC 8259
  restricted to strings, arrays and objects (the values the renderer writes; a number or
  a literal is rejected). Insignificant white space is skipped, every escape sequence of
  a string is decoded (a surrogate pair of \<^verbatim>\<open>\u\<close> escapes gives one code point), and
  a raw control character inside a string is an error.
\<close>

datatype token = LBracket | RBracket | LBrace | RBrace | Comma | Colon | TString pystr

definition hex_val :: "nat \<Rightarrow> nat option" where
  "hex_val c =
     (if 48 \<le> c \<and> c \<le> 57 then Some (c - 48)
      else if 97 \<le> c \<and> c \<le> 102 then Some (c - 87)
      else if 65 \<le> c \<and> c \<le> 70 then Some (c - 55)
      else None)"

text \<open>Four hexadecimal digits.\<close>

definition hex4 :: "pystr \<Rightarrow> nat option" where
  "hex4 ds =
     (case map hex_val ds of
        [Some a, Some b, Some c, Some d] \<Rightarrow> Some (((a * 16 + b) * 16 + c) * 16 + d)
      | _ \<Rightarrow> None)"

definition unescape :: "nat \<Rightarrow> nat option" where
  "unescape e =
     (if e = 34 then Some 34
      else if e = 92 then Some 92
      else if e = 47 then Some 47
      else if e = 98 then Some 8
      else if e = 102 then Some 12
      else if e = 110 then Some 10
      else if e = 114 then Some 13
      else if e = 116 then Some 9
      else None)"

definition cons_char :: "nat \<Rightarrow> nat \<Rightarrow> (pystr \<times> nat) option \<Rightarrow> (pystr \<times> nat) option" where
  "cons_char c k r = (case r of None \<Rightarrow> None | Some (s, n) \<Rightarrow> Some (c # s, k + n))"

text \<open>\<open>lex_string cs\<close> reads a string whose opening quote has been consumed; it returns the
  decoded string and the number of characters it has read, the closing quote included.\<close>

fun lex_string :: "pystr \<Rightarrow> (pystr \<times> nat) option" where
  "lex_string [] = None"
| "lex_string (c # cs) =
     (if c = 34 then Some ([], 1)
      else if c = 92 then
        (case cs of
           [] \<Rightarrow> None
         | e # cs' \<Rightarrow>
            if e = 117 then
              (case hex4 (take 4 cs') of
                 None \<Rightarrow> None
               | Some u \<Rightarrow>
                  if 55296 \<le> u \<and> u \<le> 56319 \<and> take 2 (drop 4 cs') = [92, 117] then
                    (case hex4 (take 4 (drop 6 cs')) of
                       None \<Rightarrow> None
                     | Some u2 \<Rightarrow>
                        if 56320 \<le> u2 \<and> u2 \<le> 57343
                        then cons_char (65536 + (u - 55296) * 1024 + (u2 - 56320)) 12
                               (lex_string (drop 10 cs'))
                        else cons_char u 6 (lex_string (drop 4 cs')))
                  else cons_char u 6 (lex_string (drop 4 cs')))
            else (case unescape e of
                    None \<Rightarrow> None
                  | Some d \<Rightarrow> cons_char d 2 (lex_string cs')))
      else if c < 32 then None
      else cons_char c 1 (lex_string cs))"

definition json_ws :: "nat \<Rightarrow> bool" where
  "json_ws c = (c = 32 \<or> c = 9 \<or> c = 10 \<or> c = 13)"

definition punct :: "nat \<Rightarrow> token option" where
  "punct c =
     (if c = 91 then Some LBracket
      else if c = 93 then Some RBracket
      else if c = 123 then Some LBrace
      else if c = 125 then Some RBrace
      else if c = 44 then Some Comma
      else if c = 58 then Some Colon
      else None)"

text \<open>The lexer; \<open>prepend ts r\<close> puts the tokens \<open>ts\<close> before the tokens of the rest, when
  the rest has been read without error.\<close>

definition prepend :: "'a list \<Rightarrow> 'a list option \<Rightarrow> 'a list option" where
  "prepend ts r = map_option ((@) ts) r"

fun json_lex :: "pystr \<Rightarrow> token list option" where
  "json_lex [] = Some []"
| "json_lex (c # cs) =
     (if json_ws c then json_lex cs
      else if c = 34 then
        (case lex_string cs of
           None \<Rightarrow> None
         | Some (s, n) \<Rightarrow> prepend [TString s] (json_lex (drop n cs)))
      else (case punct c of
              None \<Rightarrow> None
            | Some t \<Rightarrow> prepend [t] (json_lex cs)))"


text \<open>The parser works on the tokens, with the number of recursive calls bounded by the
  first argument; \<open>json_loads\<close> gives it more calls than there are tokens, and accepts only
  when no token is left.\<close>

fun parse_value :: "nat \<Rightarrow> token list \<Rightarrow> (json \<times> token list) option"
  and parse_elems :: "nat \<Rightarrow> token list \<Rightarrow> (json list \<times> token list) option"
  and parse_member :: "nat \<Rightarrow> token list \<Rightarrow> ((pystr \<times> json) \<times> token list) option"
  and parse_members :: "nat \<Rightarrow> token list \<Rightarrow> ((pystr \<times> json) list \<times> token list) option"
  where
  "parse_value 0 ts = None"
| "parse_value (Suc n) ts =
     (case ts of
        TString s # r \<Rightarrow> Some (JStr s, r)
      | LBracket # RBracket # r \<Rightarrow> Some (JArr [], r)
      | LBracket # r \<Rightarrow>
         (case parse_value n r of
            None \<Rightarrow> None
          | Some (v, r') \<Rightarrow>
             (case parse_elems n r' of
                None \<Rightarrow> None
              | Some (vs, r'') \<Rightarrow> Some (JArr (v # vs), r'')))
      | LBrace # RBrace # r \<Rightarrow> Some (JObj [], r)
      | LBrace # r \<Rightarrow>
         (case parse_member n r of
            None \<Rightarrow> None
          | Some (kv, r') \<Rightarrow>
             (case parse_members n r' of
                None \<Rightarrow> None
              | Some (kvs, r'') \<Rightarrow> Some (JObj (kv # kvs), r'')))
      | _ \<Rightarrow> None)"
| "parse_elems 0 ts = None"
| "parse_elems (Suc n) ts =
     (case ts of
        RBracket # r \<Rightarrow> Some ([], r)
      | Comma # r \<Rightarrow>
         (case parse_value n r of
            None \<Rightarrow> None
          | Some (v, r') \<Rightarrow>
             (case parse_elems n r' of
                None \<Rightarrow> None
              | Some (vs, r'') \<Rightarrow> Some (v # vs, r'')))
      | _ \<Rightarrow> None)"
| "parse_member 0 ts = None"
| "parse_member (Suc n) ts =
     (case ts of
        TString k # Colon # r \<Rightarrow>
         (case parse_value n r of
            None \<Rightarrow> None
          | Some (v, r') \<Rightarrow> Some ((k, v), r'))
      | _ \<Rightarrow> None)"
| "parse_members 0 ts = None"
| "parse_members (Suc n) ts =
     (case ts of
        RBrace # r \<Rightarrow> Some ([], r)
      | Comma # r \<Rightarrow>
         (case parse_member n r of
            None \<Rightarrow> None
          | Some (kv, r') \<Rightarrow>
             (case parse_members n r' of
                None \<Rightarrow> None
              | Some (kvs, r'') \<Rightarrow> Some (kv # kvs, r'')))
      | _ \<Rightarrow> None)"

definition json_loads :: "pystr \<Rightarrow> json option" where
  "json_loads s =
     (case json_lex s of
        None \<Rightarrow> None
      | Some ts \<Rightarrow>
         (case parse_value (2 * length ts + 1) ts of
            Some (v, []) \<Rightarrow> Some v
          | _ \<Rightarrow> None))"

text \<open>The tokens of the text that \<open>json_dumps\<close> writes for a value.\<close>

fun toks :: "json \<Rightarrow> token list" where
  "toks (JStr s) = [TString s]"
| "toks (JArr vs) = LBracket # join [Comma] (map toks vs) @ [RBracket]"
| "toks (JObj kvs) =
     LBrace # join [Comma] (map (\<lambda>kv. TString (fst kv) # Colon # toks (snd kv)) kvs) @ [RBrace]"


section \<open>Properties of the float model\<close>

lemma powi2_pos: "0 < (2::rat) powi e"
  by (simp add: power_int_def)

lemma powi2_mono: "a \<le> b \<Longrightarrow> (2::rat) powi a \<le> 2 powi b"
  by (rule power_int_increasing) simp_all

lemma powi2_strict: "a < b \<Longrightarrow> (2::rat) powi a < 2 powi b"
  by (rule power_int_strict_increasing) simp_all

lemma powi2_less_iff: "(2::rat) powi a < 2 powi b \<longleftrightarrow> a < b"
  using powi2_strict[of a b] powi2_mono[of b a] by (auto simp: not_less[symmetric])

lemma powi2_add: "(2::rat) powi (a + b) = 2 powi a * 2 powi b"
  by (simp add: power_int_add)

lemma powi2_diff: "(2::rat) powi (a - b) = 2 powi a / 2 powi b"
  by (simp add: power_int_diff)

lemma ilog2_bounds:
  assumes "0 < x"
  shows "2 powi (ilog2 x) \<le> x \<and> x < 2 powi (ilog2 x + 1)"
proof (cases "1 \<le> x")
  case True
  define n where "n = nat \<lfloor>x\<rfloor>"
  have n: "0 < n" using True by (simp add: n_def)
  have nx: "of_nat n \<le> x" "x < of_nat n + 1"
    using True by (simp_all add: n_def) linarith
  from floorlog_bounds[OF n, of 2]
  have b: "2 ^ (floorlog 2 n - 1) \<le> n" "n < 2 ^ floorlog 2 n" by simp_all
  have "floorlog 2 n \<noteq> 0" using n by (simp add: floorlog_eq_zero_iff)
  then have fpos: "0 < floorlog 2 n" by simp
  have il: "ilog2 x = int (floorlog 2 n - 1)" "ilog2 x + 1 = int (floorlog 2 n)"
    using True fpos by (simp_all add: ilog2_def n_def)
  have "(2::rat) ^ (floorlog 2 n - 1) \<le> of_nat n"
    using b(1) by (metis of_nat_le_iff of_nat_numeral of_nat_power)
  moreover have "(of_nat n :: rat) + 1 \<le> 2 ^ floorlog 2 n"
  proof -
    have "Suc n \<le> 2 ^ floorlog 2 n" using b(2) by simp
    then have "(of_nat (Suc n) :: rat) \<le> of_nat (2 ^ floorlog 2 n)" by (simp only: of_nat_le_iff)
    then show ?thesis by simp
  qed
  moreover have "(2::rat) powi (ilog2 x) = 2 ^ (floorlog 2 n - 1)"
    unfolding il(1) by (rule power_int_of_nat)
  moreover have "(2::rat) powi (ilog2 x + 1) = 2 ^ floorlog 2 n"
    unfolding il(2) by (rule power_int_of_nat)
  ultimately show ?thesis using nx by linarith
next
  case False
  define m where "m = nat (\<lceil>1 / x\<rceil> - 1)"
  have x1: "x < 1" using False by simp
  then have "1 < 1 / x" using assms by simp
  then have c2: "2 \<le> \<lceil>1 / x\<rceil>" by (simp add: le_ceiling_iff)
  then have m: "0 < m" by (simp add: m_def)
  have "(of_nat m :: rat) = of_int (\<lceil>1 / x\<rceil> - 1)"
    unfolding m_def using c2 by (simp only: of_nat_nat)
  then have mrat: "(of_nat m :: rat) = of_int \<lceil>1 / x\<rceil> - 1" by simp
  have mx: "of_nat m < 1 / x" "1 / x \<le> of_nat m + 1"
    unfolding mrat using ceiling_correct[of "1 / x"] by simp_all
  from floorlog_bounds[OF m, of 2]
  have b: "2 ^ (floorlog 2 m - 1) \<le> m" "m < 2 ^ floorlog 2 m" by simp_all
  have "floorlog 2 m \<noteq> 0" using m by (simp add: floorlog_eq_zero_iff)
  then have fpos: "0 < floorlog 2 m" by simp
  have il: "ilog2 x = - int (floorlog 2 m)" "ilog2 x + 1 = - int (floorlog 2 m - 1)"
    using False fpos by (simp_all add: ilog2_def m_def)
  have A: "(2::rat) ^ (floorlog 2 m - 1) \<le> of_nat m"
    using b(1) by (metis of_nat_le_iff of_nat_numeral of_nat_power)
  have B: "(of_nat m :: rat) + 1 \<le> 2 ^ floorlog 2 m"
  proof -
    have "Suc m \<le> 2 ^ floorlog 2 m" using b(2) by simp
    then have "(of_nat (Suc m) :: rat) \<le> of_nat (2 ^ floorlog 2 m)" by (simp only: of_nat_le_iff)
    then show ?thesis by simp
  qed
  have "1 / x \<le> 2 ^ floorlog 2 m" using mx(2) B by linarith
  then have L: "1 / 2 ^ floorlog 2 m \<le> x"
    using assms by (simp add: field_simps)
  have "2 ^ (floorlog 2 m - 1) < 1 / x" using mx(1) A by linarith
  then have U: "x < 1 / 2 ^ (floorlog 2 m - 1)"
    using assms by (simp add: field_simps)
  have "(2::rat) powi (ilog2 x) = 1 / 2 ^ floorlog 2 m"
    unfolding il(1) power_int_minus power_int_of_nat by (simp add: field_simps)
  moreover have "(2::rat) powi (ilog2 x + 1) = 1 / 2 ^ (floorlog 2 m - 1)"
    unfolding il(2) power_int_minus power_int_of_nat by (simp add: field_simps)
  ultimately show ?thesis using L U by simp
qed

lemma ilog2_eqI:
  assumes "2 powi e \<le> x" "x < 2 powi (e + 1)"
  shows "ilog2 x = e"
proof -
  have x: "0 < x" using assms(1) powi2_pos[of e] by linarith
  from ilog2_bounds[OF x] have b: "2 powi (ilog2 x) \<le> x" "x < 2 powi (ilog2 x + 1)" by simp_all
  have "(2::rat) powi e < 2 powi (ilog2 x + 1)" using assms(1) b(2) by linarith
  then have 1: "e < ilog2 x + 1" by (simp only: powi2_less_iff)
  have "(2::rat) powi (ilog2 x) < 2 powi (e + 1)" using assms(2) b(1) by linarith
  then have 2: "ilog2 x < e + 1" by (simp only: powi2_less_iff)
  from 1 2 show ?thesis by simp
qed


lemma round_half_even_of_int: "round_half_even (of_int k) = k"
  by (simp add: round_half_even_def)

lemma round_half_even_le:
  assumes "y < of_int N + 1 / 2"
  shows "round_half_even y \<le> N"
proof -
  have fl: "\<lfloor>y\<rfloor> \<le> N"
  proof -
    have "y < of_int (N + 1)" using assms by simp
    then have "\<lfloor>y\<rfloor> < N + 1" by (simp only: floor_less_iff)
    then show ?thesis by simp
  qed
  show ?thesis
  proof (cases "\<lfloor>y\<rfloor> = N")
    case True
    then have "y - of_int \<lfloor>y\<rfloor> < 1 / 2" using assms by simp
    then show ?thesis using True by (simp add: round_half_even_def Let_def)
  next
    case False
    then have "\<lfloor>y\<rfloor> + 1 \<le> N" using fl by simp
    then show ?thesis by (simp add: round_half_even_def Let_def)
  qed
qed

lemma round_half_even_ge:
  assumes "of_int N - 1 / 2 < y"
  shows "N \<le> round_half_even y"
proof -
  have fl: "N - 1 \<le> \<lfloor>y\<rfloor>"
  proof -
    have "of_int (N - 1) \<le> y" using assms by simp
    then show ?thesis by (simp only: le_floor_iff)
  qed
  show ?thesis
  proof (cases "\<lfloor>y\<rfloor> = N - 1")
    case True
    then have "1 / 2 < y - of_int \<lfloor>y\<rfloor>" using assms by simp
    then show ?thesis using True by (simp add: round_half_even_def Let_def)
  next
    case False
    then have "N \<le> \<lfloor>y\<rfloor>" using fl by simp
    then show ?thesis by (simp add: round_half_even_def Let_def)
  qed
qed

lemma round_half_even_eqI:
  "of_int N - 1 / 2 < y \<Longrightarrow> y < of_int N + 1 / 2 \<Longrightarrow> round_half_even y = N"
  using round_half_even_le[of y N] round_half_even_ge[of N y] by simp

lemma ulp_exp_eqI:
  "2 powi e \<le> \<bar>x\<bar> \<Longrightarrow> \<bar>x\<bar> < 2 powi (e + 1) \<Longrightarrow> - 1022 \<le> e \<Longrightarrow> ulp_exp x = e - 52"
  by (simp add: ulp_exp_def ilog2_eqI)

lemma overflow_threshold_pos: "0 < overflow_threshold"
  by (simp only: overflow_threshold_def zero_less_power zero_less_numeral)

lemma small_no_overflow: "r \<le> 2 ^ 64 \<Longrightarrow> r < overflow_threshold"
proof -
  have "(2::rat) ^ 64 < 2 ^ 1024" by (rule power_strict_increasing) simp_all
  then show "r \<le> 2 ^ 64 \<Longrightarrow> r < overflow_threshold"
    unfolding overflow_threshold_def by (rule order.strict_trans1[rotated])
qed

text \<open>Evaluating \<open>rnd\<close> at a positive number in the normal range, given its binade.\<close>

lemma rnd_eqI:
  assumes "2 powi e \<le> x" "x < 2 powi (e + 1)" "- 1022 \<le> e"
    and "round_half_even (x / 2 powi (e - 52)) = m"
    and "r = of_int m * 2 powi (e - 52)" "r < 2 ^ 64"
  shows "rnd x = Finite r"
proof -
  have x: "0 < x" using assms(1) powi2_pos[of e] by linarith
  have u: "ulp_exp x = e - 52" using assms(1-3) x by (intro ulp_exp_eqI) simp_all
  have "0 \<le> x / 2 powi (e - 52)" using x powi2_pos[of "e - 52"] by simp
  then have "of_int (0::int) - 1 / 2 < x / 2 powi (e - 52)" by simp
  then have "0 \<le> m" using round_half_even_ge[of 0 "x / 2 powi (e - 52)"] assms(4) by simp
  then have "0 \<le> r" using assms(5) powi2_pos[of "e - 52"] by simp
  moreover have "r < overflow_threshold" using assms(6) small_no_overflow by simp
  ultimately have "\<not> overflow_threshold \<le> r" "\<not> r \<le> - overflow_threshold"
    using overflow_threshold_pos by linarith+
  then show ?thesis using x assms(4,5) by (simp add: rnd_def u Let_def)
qed


lemma rnd_exact:
  assumes "x \<noteq> 0" "x / 2 powi ulp_exp x = of_int k" "\<bar>x\<bar> \<le> 2 ^ 64"
  shows "rnd x = Finite x"
proof -
  have u: "(2::rat) powi ulp_exp x \<noteq> 0" using powi2_pos[of "ulp_exp x"] by simp
  have r: "of_int (round_half_even (x / 2 powi ulp_exp x)) * 2 powi ulp_exp x = x"
    unfolding assms(2) round_half_even_of_int using assms(2)[symmetric] u by simp
  have "x < overflow_threshold" "- x < overflow_threshold"
    using assms(3) by (auto intro!: small_no_overflow)
  then have "\<not> overflow_threshold \<le> x" "\<not> x \<le> - overflow_threshold" by linarith+
  then show ?thesis using assms(1) by (simp add: rnd_def Let_def r)
qed

lemma ulp_exp_small:
  assumes "x \<noteq> 0" "\<bar>x\<bar> < 2 ^ 53"
  shows "ulp_exp x \<le> 0"
proof -
  have "0 < \<bar>x\<bar>" using assms(1) by simp
  from ilog2_bounds[OF this] have "2 powi (ilog2 \<bar>x\<bar>) \<le> \<bar>x\<bar>" by simp
  then have "(2::rat) powi (ilog2 \<bar>x\<bar>) < 2 powi 53" using assms(2) by simp
  then have "ilog2 \<bar>x\<bar> < 53" by (simp only: powi2_less_iff)
  then show ?thesis by (simp add: ulp_exp_def)
qed

lemma int_over_ulp:
  assumes "e \<le> 0"
  shows "of_int n / 2 powi e = (of_int (n * 2 ^ nat (- e)) :: rat)"
proof -
  have "(2::rat) powi e = 1 / 2 ^ nat (- e)"
    using assms by (simp add: power_int_def field_simps)
  then show ?thesis by simp
qed

lemma rnd_of_int:
  assumes "\<bar>n\<bar> < 2 ^ 53"
  shows "rnd (of_int n) = Finite (of_int n)"
proof (cases "n = 0")
  case True
  then show ?thesis by (simp add: rnd_def)
next
  case False
  have b: "\<bar>of_int n :: rat\<bar> < 2 ^ 53"
  proof -
    have "(of_int \<bar>n\<bar> :: rat) < of_int (2 ^ 53)" using assms by (simp only: of_int_less_iff)
    then show ?thesis by simp
  qed
  have nz: "(of_int n :: rat) \<noteq> 0" using False by simp
  have e: "ulp_exp (of_int n) \<le> 0" using nz b by (rule ulp_exp_small)
  have "(2::rat) ^ 53 \<le> 2 ^ 64" by (rule power_increasing) simp_all
  then have "\<bar>of_int n :: rat\<bar> \<le> 2 ^ 64" using b by linarith
  with nz int_over_ulp[OF e, of n] show ?thesis by (rule rnd_exact)
qed

lemma trunc_nonneg: "0 \<le> x \<Longrightarrow> trunc x = \<lfloor>x\<rfloor>"
  by (simp add: trunc_def)

lemma float_div_mod_nonneg:
  assumes "0 \<le> x" "x < 2 ^ 53" "0 < W"
  shows "float_div_mod x (of_int W) =
           (Finite (of_int \<lfloor>x / of_int W\<rfloor>), Finite (x - of_int W * of_int \<lfloor>x / of_int W\<rfloor>))"
proof -
  define k where "k = \<lfloor>x / of_int W\<rfloor>"
  have W: "(0::rat) < of_int W" using assms(3) by simp
  have q: "0 \<le> x / of_int W" using assms(1) W by simp
  then have k0: "0 \<le> k" by (simp add: k_def)
  have "of_int k \<le> x / of_int W" unfolding k_def by (rule of_int_floor_le)
  then have kx: "of_int W * of_int k \<le> x" using W by (simp add: field_simps)
  have m: "fmod x (of_int W) = x - of_int W * of_int k"
    by (simp add: fmod_def trunc_nonneg[OF q] k_def)
  have m0: "0 \<le> fmod x (of_int W)" using kx by (simp add: m)
  have "(of_int (W * k) :: rat) < of_int (2 ^ 53)" using kx assms(2) by simp
  then have wk: "W * k < 2 ^ 53" by (simp only: of_int_less_iff)
  have wk0: "0 \<le> W * k" using k0 assms(3) by simp
  have "k \<le> W * k" using k0 assms(3) by (simp add: mult_le_cancel_right1)
  then have kb: "\<bar>k\<bar> < 2 ^ 53" using wk k0 by linarith
  have wkb: "\<bar>W * k\<bar> < 2 ^ 53" using wk wk0 by linarith
  have s: "rnd (x - fmod x (of_int W)) = Finite (of_int (W * k))"
    using rnd_of_int[OF wkb] by (simp add: m)
  have d: "c_div (Finite (of_int (W * k))) (of_int W) = Finite (of_int k)"
    using rnd_of_int[OF kb] W by simp
  have sn: "snap_floor (Finite (of_int k)) = Finite (of_int k)"
    by (simp add: rnd_def)
  have adj: "\<not> (fmod x (of_int W) \<noteq> 0 \<and> ((of_int W < (0::rat)) \<noteq> (fmod x (of_int W) < 0)))"
    using m0 W by auto
  show ?thesis
    unfolding float_div_mod_def Let_def s d k_def[symmetric]
    using adj sn m by auto
qed

lemma rnd_between:
  assumes "0 \<le> y" "y < 2 ^ 52"
  shows "\<exists>p. rnd y = Finite p \<and> of_int \<lfloor>y\<rfloor> \<le> p \<and> p \<le> of_int \<lfloor>y\<rfloor> + 1"
proof (cases "y = 0")
  case True
  then show ?thesis by (simp add: rnd_def)
next
  case False
  define u :: rat where "u = 2 powi ulp_exp y"
  define N where "N = \<lfloor>y\<rfloor>"
  define j where "j = nat (- ulp_exp y)"
  have u0: "0 < u" unfolding u_def by (rule powi2_pos)
  have "(2::rat) ^ 52 < 2 ^ 53" by (rule power_strict_increasing) simp_all
  then have "\<bar>y\<bar> < 2 ^ 53" using assms by linarith
  then have e: "ulp_exp y \<le> 0" using False by (intro ulp_exp_small)
  have A: "of_int N / u = of_int (N * 2 ^ j)" and B: "of_int (N + 1) / u = of_int ((N + 1) * 2 ^ j)"
    unfolding u_def j_def by (rule int_over_ulp[OF e])+
  have N: "of_int N \<le> y" "y < of_int (N + 1)"
    unfolding N_def by linarith+
  have "of_int N / u \<le> y / u" using N(1) u0 by (simp add: divide_right_mono)
  then have "of_int (N * 2 ^ j) - 1 / 2 < y / u" unfolding A by linarith
  then have lo: "N * 2 ^ j \<le> round_half_even (y / u)" by (rule round_half_even_ge)
  have "y / u < of_int (N + 1) / u" using N(2) u0 by (simp add: divide_strict_right_mono)
  then have "y / u < of_int ((N + 1) * 2 ^ j) + 1 / 2" unfolding B by linarith
  then have hi: "round_half_even (y / u) \<le> (N + 1) * 2 ^ j" by (rule round_half_even_le)
  define p where "p = of_int (round_half_even (y / u)) * u"
  have "(of_int (N * 2 ^ j) :: rat) \<le> of_int (round_half_even (y / u))"
    using lo by (simp only: of_int_le_iff)
  then have "of_int (N * 2 ^ j) * u \<le> p" unfolding p_def using u0
    by (intro mult_right_mono) simp_all
  then have plo: "of_int N \<le> p" unfolding A[symmetric] using u0 by simp
  have "(of_int (round_half_even (y / u)) :: rat) \<le> of_int ((N + 1) * 2 ^ j)"
    using hi by (simp only: of_int_le_iff)
  then have "p \<le> of_int ((N + 1) * 2 ^ j) * u" unfolding p_def using u0
    by (intro mult_right_mono) simp_all
  then have phi: "p \<le> of_int N + 1" unfolding B[symmetric] using u0 by simp
  have "0 \<le> N" unfolding N_def using assms(1) by simp
  then have p0: "0 \<le> p" using plo by (smt (verit) of_int_0_le_iff order.trans)
  have "p \<le> 2 ^ 52 + 1" using phi N(1) assms(2) by linarith
  moreover have "(2::rat) ^ 52 + 1 \<le> 2 ^ 64" by simp
  ultimately have "p < overflow_threshold" by (intro small_no_overflow) linarith
  then have "\<not> overflow_threshold \<le> p" "\<not> p \<le> - overflow_threshold"
    using p0 overflow_threshold_pos by linarith+
  then have "rnd y = Finite p"
    using False by (simp add: rnd_def Let_def p_def u_def)
  then show ?thesis using plo phi unfolding N_def by blast
qed

section \<open>Properties of the time formatter\<close>

declare digits10.simps [simp del]

lemma digits10_1: "n < 10 \<Longrightarrow> digits10 n = [48 + n]"
  by (subst digits10.simps) simp

lemma digits10_2: "10 \<le> n \<Longrightarrow> n < 100 \<Longrightarrow> digits10 n = [48 + n div 10, 48 + n mod 10]"
  by (subst digits10.simps) (simp add: digits10_1)

lemma digits10_3:
  "100 \<le> n \<Longrightarrow> n < 1000 \<Longrightarrow> digits10 n = [48 + n div 100, 48 + n div 10 mod 10, 48 + n mod 10]"
  by (subst digits10.simps) (simp add: digits10_2 div_mult2_eq[symmetric])

lemma format_d_2: "0 \<le> i \<Longrightarrow> i < 100 \<Longrightarrow> format_d 2 i = [48 + nat i div 10, 48 + nat i mod 10]"
  by (cases "nat i < 10") (simp_all add: format_d_def digits10_1 digits10_2 Let_def)

lemma format_d_3:
  "0 \<le> i \<Longrightarrow> i < 1000 \<Longrightarrow>
   format_d 3 i = [48 + nat i div 100, 48 + nat i div 10 mod 10, 48 + nat i mod 10]"
  apply (cases "nat i < 10")
   apply (simp add: format_d_def digits10_1 Let_def numeral_3_eq_3)
  apply (cases "nat i < 100")
   apply (simp add: format_d_def digits10_2 Let_def numeral_3_eq_3)
  apply (simp add: format_d_def digits10_3 Let_def)
  done

lemma float_floordiv_nonneg:
  assumes "0 \<le> x" "x < 2 ^ 53" "0 < W"
  shows "float_floordiv (Finite x) (of_int W) = Inr (Finite (of_int \<lfloor>x / of_int W\<rfloor>))"
  using assms by (simp add: float_floordiv_def float_div_mod_nonneg)

lemma float_mod_nonneg:
  assumes "0 \<le> x" "x < 2 ^ 53" "0 < W"
  shows "float_mod (Finite x) (of_int W) = Inr (Finite (x - of_int W * of_int \<lfloor>x / of_int W\<rfloor>))"
  using assms by (simp add: float_mod_def float_div_mod_nonneg)

lemma rem_bounds:
  assumes "(0::rat) < w"
  shows "0 \<le> x - w * of_int \<lfloor>x / w\<rfloor>" "x - w * of_int \<lfloor>x / w\<rfloor> < w"
proof -
  have "of_int \<lfloor>x / w\<rfloor> \<le> x / w" "x / w < of_int \<lfloor>x / w\<rfloor> + 1" by linarith+
  then have "of_int \<lfloor>x / w\<rfloor> * w \<le> x" "x < (of_int \<lfloor>x / w\<rfloor> + 1) * w"
    using assms by (simp_all only: pos_le_divide_eq pos_divide_less_eq)
  then show "0 \<le> x - w * of_int \<lfloor>x / w\<rfloor>" "x - w * of_int \<lfloor>x / w\<rfloor> < w"
    by (simp_all add: algebra_simps)
qed

lemma format_time_srt_finite:
  assumes "0 \<le> x" "x < 2 ^ 53"
  shows "format_time_srt (Finite x) =
         bind_err (py_int (rnd ((x - of_int \<lfloor>x\<rfloor>) * 1000))) (\<lambda>millis.
           Inr (time_text \<lfloor>x / 3600\<rfloor> \<lfloor>(x - 3600 * of_int \<lfloor>x / 3600\<rfloor>) / 60\<rfloor>
                  \<lfloor>x - 60 * of_int \<lfloor>x / 60\<rfloor>\<rfloor> millis))"
proof -
  define r where "r = x - 3600 * of_int \<lfloor>x / 3600\<rfloor>"
  have r: "0 \<le> r" "r < 3600" unfolding r_def using rem_bounds[of 3600 x] by simp_all
  have "(3600::rat) \<le> 2 ^ 53" by simp
  then have r53: "r < 2 ^ 53" using r(2) by linarith
  have h: "float_floordiv (Finite x) 3600 = Inr (Finite (of_int \<lfloor>x / 3600\<rfloor>))"
    using float_floordiv_nonneg[OF assms, of 3600] by simp
  have m1: "float_mod (Finite x) 3600 = Inr (Finite r)"
    using float_mod_nonneg[OF assms, of 3600] by (simp add: r_def)
  have m2: "float_floordiv (Finite r) 60 = Inr (Finite (of_int \<lfloor>r / 60\<rfloor>))"
    using float_floordiv_nonneg[OF r(1) r53, of 60] by simp
  have s: "float_mod (Finite x) 60 = Inr (Finite (x - 60 * of_int \<lfloor>x / 60\<rfloor>))"
    using float_mod_nonneg[OF assms, of 60] by simp
  have f: "float_mod (Finite x) 1 = Inr (Finite (x - of_int \<lfloor>x\<rfloor>))"
    using float_mod_nonneg[OF assms, of 1] by simp
  have t1: "trunc (of_int \<lfloor>x / 3600\<rfloor>) = \<lfloor>x / 3600\<rfloor>"
    by (simp add: trunc_def)
  have t2: "trunc (of_int \<lfloor>r / 60\<rfloor>) = \<lfloor>r / 60\<rfloor>"
    by (simp add: trunc_def)
  have t3: "trunc (x - 60 * of_int \<lfloor>x / 60\<rfloor>) = \<lfloor>x - 60 * of_int \<lfloor>x / 60\<rfloor>\<rfloor>"
    using rem_bounds(1)[of 60 x] by (simp add: trunc_nonneg)
  have "format_time_srt (Finite x) =
         bind_err (py_int (rnd ((x - of_int \<lfloor>x\<rfloor>) * 1000))) (\<lambda>millis.
           Inr (time_text \<lfloor>x / 3600\<rfloor> \<lfloor>r / 60\<rfloor>
                  \<lfloor>x - 60 * of_int \<lfloor>x / 60\<rfloor>\<rfloor> millis))"
    unfolding format_time_srt_def h m1 s f
    by (simp add: bind_err_def m2 t1 t2 t3)
  then show ?thesis unfolding r_def .
qed

lemma rnd_nonneg_cases:
  assumes "0 < y" "round_half_even (y / 2 powi ulp_exp y) \<le> M"
    and "(of_int M :: rat) * 2 powi ulp_exp y \<le> 2 ^ 64"
  shows "\<exists>p. rnd y = Finite p \<and> 0 \<le> p \<and> p \<le> of_int M * 2 powi ulp_exp y"
proof -
  define u :: rat where "u = 2 powi ulp_exp y"
  define p where "p = of_int (round_half_even (y / u)) * u"
  have u0: "0 < u" unfolding u_def by (rule powi2_pos)
  have "0 < y / u" using assms(1) u0 by (rule divide_pos_pos)
  then have "of_int (0::int) - 1 / 2 < y / u" by simp
  then have "0 \<le> round_half_even (y / u)" by (rule round_half_even_ge)
  then have p0: "0 \<le> p" unfolding p_def using u0 by simp
  have "(of_int (round_half_even (y / u)) :: rat) \<le> of_int M"
    using assms(2) unfolding u_def by (simp only: of_int_le_iff)
  then have pM: "p \<le> of_int M * u" unfolding p_def using u0 by (intro mult_right_mono) simp_all
  then have "p < overflow_threshold" using assms(3) unfolding u_def[symmetric]
    by (intro small_no_overflow) linarith
  then have "\<not> overflow_threshold \<le> p" "\<not> p \<le> - overflow_threshold"
    using p0 overflow_threshold_pos by linarith+
  then have "rnd y = Finite p" using assms(1) by (simp add: rnd_def Let_def p_def u_def)
  then show ?thesis using p0 pM unfolding u_def by blast
qed

lemma millis_lt_1000:
  assumes "0 \<le> f" "f \<le> 1 - 1 / 2 ^ 53"
  shows "\<exists>p. rnd (f * 1000) = Finite p \<and> 0 \<le> p \<and> p < 1000"
proof (cases "f * 1000 < 999")
  case True
  have "0 \<le> f * 1000" "f * 1000 < 2 ^ 52" using assms(1) True by simp_all
  from rnd_between[OF this] obtain p where
    p: "rnd (f * 1000) = Finite p" "of_int \<lfloor>f * 1000\<rfloor> \<le> p" "p \<le> of_int \<lfloor>f * 1000\<rfloor> + 1"
    by blast
  have "f * 1000 < of_int (999::int)" using True by simp
  then have "\<lfloor>f * 1000\<rfloor> < 999" by (simp only: floor_less_iff)
  then have "(of_int \<lfloor>f * 1000\<rfloor> :: rat) \<le> 998" by simp
  moreover have "(0::rat) \<le> of_int \<lfloor>f * 1000\<rfloor>" using \<open>0 \<le> f * 1000\<close> by simp
  ultimately show ?thesis using p by (intro exI[of _ p]) linarith
next
  case False
  define y where "y = f * 1000"
  have y: "999 \<le> y" "y \<le> 1000 - 1000 / 2 ^ 53" using False assms(2) by (simp_all add: y_def)
  have "2 powi 9 \<le> \<bar>y\<bar>" "\<bar>y\<bar> < 2 powi (9 + 1)" using y by simp_all
  then have u: "ulp_exp y = 9 - 52" by (rule ulp_exp_eqI) simp
  have u': "(2::rat) powi ulp_exp y = 1 / 2 ^ 43" unfolding u by (simp add: power_int_minus)
  have "y / (1 / 2 ^ 43) < of_int (1000 * 2 ^ 43 - 1) + 1 / 2" using y(2) by simp
  then have "round_half_even (y / 2 powi ulp_exp y) \<le> 1000 * 2 ^ 43 - 1"
    unfolding u' by (rule round_half_even_le)
  moreover have "0 < y" using y(1) by simp
  moreover have "(of_int (1000 * 2 ^ 43 - 1) :: rat) * 2 powi ulp_exp y \<le> 2 ^ 64"
    unfolding u' by simp
  ultimately obtain p where "rnd y = Finite p" "0 \<le> p"
      "p \<le> of_int (1000 * 2 ^ 43 - 1) * 2 powi ulp_exp y"
    using rnd_nonneg_cases by blast
  then have "rnd y = Finite p \<and> 0 \<le> p \<and> p < 1000" unfolding u' by simp
  then show ?thesis unfolding y_def by blast
qed

lemma is_doubleD:
  assumes "is_double x"
  shows "x = of_int (round_half_even (x / 2 powi ulp_exp x)) * 2 powi ulp_exp x"
proof (cases "x = 0")
  case True
  then show ?thesis by (simp add: round_half_even_def)
next
  case False
  from assms have "rnd x = Finite x" by (simp add: is_double_def)
  then show ?thesis using False
    by (simp add: rnd_def Let_def split: if_splits)
qed

lemma double_frac_le:
  assumes "is_double x" "0 \<le> x"
  shows "x - of_int \<lfloor>x\<rfloor> \<le> 1 - 1 / 2 ^ 53"
proof (cases "x = 0")
  case True
  then show ?thesis by simp
next
  case False
  define ue where "ue = ulp_exp x"
  define m where "m = round_half_even (x / 2 powi ue)"
  have xm: "x = of_int m * 2 powi ue" unfolding m_def ue_def using assms(1) by (rule is_doubleD)
  have x0: "0 < x" using False assms(2) by simp
  consider "0 \<le> ue" | "- 53 \<le> ue" "ue < 0" | "ue < - 53" by linarith
  then show ?thesis
  proof cases
    case 1
    then have "x = of_int (m * 2 ^ nat ue)" using xm by (simp add: power_int_def)
    then have "x - of_int \<lfloor>x\<rfloor> = 0" by (metis floor_of_int diff_self)
    then show ?thesis by simp
  next
    case 2
    define j where "j = nat (- ue)"
    have j: "j \<le> 53" using 2 by (simp add: j_def)
    have u: "(2::rat) powi ue = 1 / 2 ^ j" using 2 by (simp add: power_int_def j_def field_simps)
    have xj: "x * 2 ^ j = of_int m" using xm unfolding u by simp
    define K where "K = m - \<lfloor>x\<rfloor> * 2 ^ j"
    have fr: "(x - of_int \<lfloor>x\<rfloor>) * 2 ^ j = of_int K" unfolding K_def using xj by (simp add: algebra_simps)
    have "x - of_int \<lfloor>x\<rfloor> < 1" by linarith
    then have "(x - of_int \<lfloor>x\<rfloor>) * 2 ^ j < 1 * 2 ^ j" by (intro mult_strict_right_mono) simp_all
    then have "(of_int K :: rat) < of_int (2 ^ j)" unfolding fr by simp
    then have "K < 2 ^ j" by (simp only: of_int_less_iff)
    then have "K \<le> 2 ^ j - 1" by simp
    then have "(of_int K :: rat) \<le> of_int (2 ^ j - 1)" by (simp only: of_int_le_iff)
    then have "(x - of_int \<lfloor>x\<rfloor>) * 2 ^ j \<le> 2 ^ j - 1" unfolding fr by simp
    then have "x - of_int \<lfloor>x\<rfloor> \<le> (2 ^ j - 1) / 2 ^ j" by (simp add: pos_le_divide_eq)
    also have "\<dots> = 1 - 1 / 2 ^ j" by (simp add: diff_divide_distrib)
    also have "\<dots> \<le> 1 - 1 / 2 ^ 53"
    proof -
      have "(2::rat) ^ j \<le> 2 ^ 53" using j by (intro power_increasing) simp_all
      then have "1 / (2::rat) ^ 53 \<le> 1 / 2 ^ j" by (intro divide_left_mono) simp_all
      then show ?thesis by linarith
    qed
    finally show ?thesis .
  next
    case 3
    have "ilog2 \<bar>x\<bar> - 52 \<le> ue" by (simp add: ue_def ulp_exp_def)
    then have e: "ilog2 x + 1 \<le> - 1" using 3 x0 by simp
    from ilog2_bounds[OF x0] have "x < 2 powi (ilog2 x + 1)" by simp
    also have "\<dots> \<le> 2 powi (- 1)" using e by (rule powi2_mono)
    finally have xh: "x < 1 / 2" by (simp add: power_int_minus)
    then have "\<lfloor>x\<rfloor> = 0" using assms(2) by (simp add: floor_eq_iff)
    then show ?thesis using xh by simp
  qed
qed


lemma floor_div_int:
  assumes "0 < W"
  shows "\<lfloor>x / of_int W\<rfloor> = \<lfloor>x :: rat\<rfloor> div W"
proof (rule floor_unique)
  define n where "n = \<lfloor>x\<rfloor>"
  have W: "(0::rat) < of_int W" using assms by simp
  have n: "of_int n \<le> x" "x < of_int n + 1" unfolding n_def by linarith+
  have dm: "n = W * (n div W) + n mod W" by simp
  have md: "0 \<le> n mod W" "n mod W < W" using assms by simp_all
  have "W * (n div W) \<le> n" using dm md(1) by linarith
  then have "(of_int (W * (n div W)) :: rat) \<le> of_int n" by (simp only: of_int_le_iff)
  then have "of_int (n div W) * of_int W \<le> x" using n(1) by (simp add: mult.commute)
  then show "of_int (n div W) \<le> x / of_int W" using W by (simp only: pos_le_divide_eq)
  have "n + 1 \<le> W * (n div W) + W" using dm md(2) by linarith
  then have "(of_int (n + 1) :: rat) \<le> of_int (W * (n div W) + W)" by (simp only: of_int_le_iff)
  then have "x < (of_int (n div W) + 1) * of_int W" using n(2) by (simp add: algebra_simps)
  then show "x / of_int W < of_int (n div W) + 1" using W by (simp only: pos_divide_less_eq)
qed

lemma ref_hours_eq: "ref_hours x = \<lfloor>x\<rfloor> div 3600"
  unfolding ref_hours_def using floor_div_int[of 3600 x] by simp

lemma ref_minutes_eq: "ref_minutes x = \<lfloor>x\<rfloor> div 60 mod 60"
proof -
  have "(x - 3600 * of_int (ref_hours x)) / 60 = x / 60 - of_int (60 * ref_hours x)" by simp
  then have "ref_minutes x = \<lfloor>x / 60\<rfloor> - 60 * ref_hours x"
    unfolding ref_minutes_def by (simp only: floor_diff_of_int)
  also have "\<lfloor>x / 60\<rfloor> = \<lfloor>x\<rfloor> div 60" using floor_div_int[of 60 x] by simp
  also have "\<lfloor>x\<rfloor> div 60 - 60 * ref_hours x = \<lfloor>x\<rfloor> div 60 mod 60"
    unfolding ref_hours_eq by (simp add: minus_mult_div_eq_mod[symmetric] div_mult2_eq[symmetric])
  finally show ?thesis .
qed

lemma ref_rem_eq:
  "x - 3600 * of_int (ref_hours x) - 60 * of_int (ref_minutes x) = x - 60 * of_int \<lfloor>x / 60\<rfloor>"
proof -
  have "ref_minutes x = \<lfloor>x / 60\<rfloor> - 60 * ref_hours x"
  proof -
    have "(x - 3600 * of_int (ref_hours x)) / 60 = x / 60 - of_int (60 * ref_hours x)" by simp
    then show ?thesis unfolding ref_minutes_def by (simp only: floor_diff_of_int)
  qed
  then show ?thesis by simp
qed

lemma ref_seconds_eq: "ref_seconds x = \<lfloor>x\<rfloor> mod 60"
proof -
  have "ref_seconds x = \<lfloor>x - of_int (60 * \<lfloor>x / 60\<rfloor>)\<rfloor>"
    unfolding ref_seconds_def ref_rem_eq by simp
  also have "\<dots> = \<lfloor>x\<rfloor> - 60 * \<lfloor>x / 60\<rfloor>" by (simp only: floor_diff_of_int)
  also have "\<lfloor>x / 60\<rfloor> = \<lfloor>x\<rfloor> div 60" using floor_div_int[of 60 x] by simp
  also have "\<lfloor>x\<rfloor> - 60 * (\<lfloor>x\<rfloor> div 60) = \<lfloor>x\<rfloor> mod 60" by (simp add: minus_mult_div_eq_mod)
  finally show ?thesis .
qed

lemma ref_fraction_eq: "ref_fraction x = x - of_int \<lfloor>x\<rfloor>"
proof -
  have "ref_seconds x = \<lfloor>x\<rfloor> - 60 * \<lfloor>x / 60\<rfloor>"
  proof -
    have "ref_seconds x = \<lfloor>x - of_int (60 * \<lfloor>x / 60\<rfloor>)\<rfloor>"
      unfolding ref_seconds_def ref_rem_eq by simp
    then show ?thesis by (simp only: floor_diff_of_int)
  qed
  then show ?thesis unfolding ref_fraction_def ref_rem_eq by simp
qed

lemma rnd_evalI:
  assumes "2 powi e \<le> x" "x < 2 powi (e + 1)" "- 1022 \<le> e"
    and "of_int m - 1 / 2 < x / 2 powi (e - 52)" "x / 2 powi (e - 52) < of_int m + 1 / 2"
    and "r = of_int m * 2 powi (e - 52)" "r < 2 ^ 64"
  shows "rnd x = Finite r"
  using assms(1-3) round_half_even_eqI[OF assms(4,5)] assms(6,7) by (rule rnd_eqI)

lemma format_time_srt_eval:
  assumes "0 \<le> x" "x < 2 ^ 53" "rnd ((x - of_int \<lfloor>x\<rfloor>) * 1000) = Finite p" "0 \<le> p"
  shows "format_time_srt (Finite x) =
         Inr (time_text (\<lfloor>x\<rfloor> div 3600) (\<lfloor>x\<rfloor> div 60 mod 60) (\<lfloor>x\<rfloor> mod 60) \<lfloor>p\<rfloor>)"
proof -
  have F1: "\<lfloor>x / 3600\<rfloor> = \<lfloor>x\<rfloor> div 3600"
    using floor_div_int[of 3600 x] by simp
  have F2: "\<lfloor>(x - 3600 * of_int \<lfloor>x / 3600\<rfloor>) / 60\<rfloor> = \<lfloor>x\<rfloor> div 60 mod 60"
    using ref_minutes_eq[of x] unfolding ref_minutes_def ref_hours_def .
  have "\<lfloor>x - 60 * of_int \<lfloor>x / 60\<rfloor>\<rfloor> = ref_seconds x"
    unfolding ref_seconds_def ref_rem_eq ..
  then have F3: "\<lfloor>x - 60 * of_int \<lfloor>x / 60\<rfloor>\<rfloor> = \<lfloor>x\<rfloor> mod 60"
    by (simp only: ref_seconds_eq)
  show ?thesis
    unfolding format_time_srt_finite[OF assms(1,2)] assms(3)
    unfolding F2 F3
    unfolding F1
    using assms(4) by (simp add: bind_err_def trunc_nonneg)
qed

lemma time_text_digits:
  assumes "0 \<le> h" "h < 100" "0 \<le> m" "m < 100" "0 \<le> s" "s < 100" "0 \<le> ms" "ms < 1000"
  shows "time_text h m s ms =
    [48 + nat h div 10, 48 + nat h mod 10, 58, 48 + nat m div 10, 48 + nat m mod 10, 58,
     48 + nat s div 10, 48 + nat s mod 10, 44,
     48 + nat ms div 100, 48 + nat ms div 10 mod 10, 48 + nat ms mod 10]"
  using assms by (simp add: time_text_def format_d_2 format_d_3 str_def)

lemma lit_0: "float_lit 0 = Finite 0"
  by (simp add: float_lit_def rnd_def)

lemma lit_61_5: "float_lit (615 / 10) = Finite (123 / 2)"
  unfolding float_lit_def
  by (rule rnd_evalI[where e = 5 and m = "123 * 2 ^ 46"]) (simp_all add: power_int_minus)

lemma lit_0_0009: "float_lit (9 / 10000) = Finite (4150517416584649 / 2 ^ 62)"
  unfolding float_lit_def
  by (rule rnd_evalI[where e = "- 11" and m = 8301034833169298]) (simp_all add: power_int_minus)

lemma lit_3661_999: "float_lit (3661999 / 1000) = Finite (1006602620351021 / 2 ^ 38)"
  unfolding float_lit_def
  by (rule rnd_evalI[where e = 11 and m = "1006602620351021 * 2 ^ 3"]) (simp_all add: power_int_minus)

lemma lit_360000: "float_lit 360000 = Finite 360000"
  unfolding float_lit_def using rnd_of_int[of 360000] by simp

lemma ex_0: "format_time_srt (float_lit 0) = Inr (str ''00:00:00,000'')"
proof -
  have "rnd (((0::rat) - of_int \<lfloor>0::rat\<rfloor>) * 1000) = Finite 0" by (simp add: rnd_def)
  from format_time_srt_eval[OF _ _ this] show ?thesis
    by (simp add: lit_0 time_text_digits str_def)
qed

lemma ex_61_5: "format_time_srt (float_lit (615 / 10)) = Inr (str ''00:01:01,500'')"
proof -
  have fl: "\<lfloor>123 / 2 :: rat\<rfloor> = 61" by (simp add: floor_eq_iff)
  have "rnd (((123 / 2 :: rat) - of_int \<lfloor>123 / 2 :: rat\<rfloor>) * 1000) = Finite 500"
    unfolding fl using rnd_of_int[of 500] by simp
  from format_time_srt_eval[OF _ _ this] show ?thesis
    unfolding lit_61_5 by (simp add: fl time_text_digits str_def)
qed

lemma ex_0_0009: "format_time_srt (float_lit (9 / 10000)) = Inr (str ''00:00:00,000'')"
proof -
  define x :: rat where "x = 4150517416584649 / 2 ^ 62"
  have fl: "\<lfloor>x\<rfloor> = 0" by (simp add: floor_eq_iff x_def)
  have p: "rnd ((x - of_int \<lfloor>x\<rfloor>) * 1000) = Finite (8106479329266893 / 2 ^ 53)"
    unfolding fl unfolding x_def
    by (rule rnd_evalI[where e = "- 1" and m = 8106479329266893]) (simp_all add: power_int_minus)
  have fp: "\<lfloor>8106479329266893 / 2 ^ 53 :: rat\<rfloor> = 0" by (simp add: floor_eq_iff)
  have "0 \<le> x" "x < 2 ^ 53" by (simp_all add: x_def)
  from format_time_srt_eval[OF this p] show ?thesis
    unfolding lit_0_0009 x_def[symmetric] fl fp by (simp add: time_text_digits str_def)
qed

lemma ex_3661_999:
  "format_time_srt (float_lit (3661999 / 1000)) = Inr (str ''01:01:01,998'')"
proof -
  define x :: rat where "x = 1006602620351021 / 2 ^ 38"
  have fl: "\<lfloor>x\<rfloor> = 3661" by (simp add: floor_eq_iff x_def)
  have p: "rnd ((x - of_int \<lfloor>x\<rfloor>) * 1000) = Finite (34325378629625 / 2 ^ 35)"
    unfolding fl unfolding x_def
    by (rule rnd_evalI[where e = 9 and m = "34325378629625 * 2 ^ 8"]) (simp_all add: power_int_minus)
  have fp: "\<lfloor>34325378629625 / 2 ^ 35 :: rat\<rfloor> = 998" by (simp add: floor_eq_iff)
  have "0 \<le> x" "x < 2 ^ 53" by (simp_all add: x_def)
  from format_time_srt_eval[OF this p] show ?thesis
    unfolding lit_3661_999 x_def[symmetric] fl fp by (simp add: time_text_digits str_def)
qed

lemma floor_of_rounded:
  assumes "of_int N \<le> p" "p \<le> of_int N + 1"
  shows "\<lfloor>p::rat\<rfloor> = N \<or> \<lfloor>p\<rfloor> = N + 1"
proof -
  have "N \<le> \<lfloor>p\<rfloor>" using assms(1) by (simp only: le_floor_iff)
  moreover have "\<lfloor>p\<rfloor> \<le> N + 1"
  proof -
    have "p < of_int (N + 1) + 1" using assms(2) by simp
    then show ?thesis by (simp only: floor_le_iff)
  qed
  ultimately show ?thesis by linarith
qed

lemma format_time_srt_general:
  assumes "0 \<le> x" "x < 2 ^ 53"
  shows "\<exists>p. float_mul (Finite (ref_fraction x)) 1000 = Finite p
           \<and> (\<lfloor>p\<rfloor> = \<lfloor>ref_fraction x * 1000\<rfloor> \<or> \<lfloor>p\<rfloor> = \<lfloor>ref_fraction x * 1000\<rfloor> + 1)
           \<and> format_time_srt (Finite x) =
               Inr (time_text (ref_hours x) (ref_minutes x) (ref_seconds x) \<lfloor>p\<rfloor>)"
proof -
  define f where "f = x - of_int \<lfloor>x\<rfloor>"
  have f: "0 \<le> f" "f < 1" unfolding f_def by linarith+
  then have "0 \<le> f * 1000" "f * 1000 < 2 ^ 52" by simp_all
  from rnd_between[OF this] obtain p where
    p: "rnd (f * 1000) = Finite p" "of_int \<lfloor>f * 1000\<rfloor> \<le> p" "p \<le> of_int \<lfloor>f * 1000\<rfloor> + 1"
    by blast
  have "(0::rat) \<le> of_int \<lfloor>f * 1000\<rfloor>" using \<open>0 \<le> f * 1000\<close> by simp
  then have p0: "0 \<le> p" using p(2) by linarith
  have "format_time_srt (Finite x) =
        Inr (time_text (ref_hours x) (ref_minutes x) (ref_seconds x) \<lfloor>p\<rfloor>)"
    using format_time_srt_eval[OF assms p(1)[unfolded f_def] p0]
    by (simp only: ref_hours_eq ref_minutes_eq ref_seconds_eq)
  moreover have "float_mul (Finite (ref_fraction x)) 1000 = Finite p"
    using p(1) by (simp add: ref_fraction_eq f_def)
  moreover have "\<lfloor>p\<rfloor> = \<lfloor>ref_fraction x * 1000\<rfloor> \<or> \<lfloor>p\<rfloor> = \<lfloor>ref_fraction x * 1000\<rfloor> + 1"
    unfolding ref_fraction_eq f_def[symmetric] using p(2,3) by (rule floor_of_rounded)
  ultimately show ?thesis by blast
qed

text \<open>
  Claim C1, as the code has it. For every finite non-negative \<open>seconds\<close> below \<open>2 ^ 53\<close>
  (every rational in that range, so in particular every binary64 number), the hours,
  minutes and seconds fields are exactly the specification's floors. The milliseconds
  field is the truncation of the binary64 product \<open>(seconds % 1) * 1000\<close>, which is the
  floor of the exact product or one more (when the product rounds up to an integer).
  The literal \<open>3661.999\<close> denotes a binary64 number slightly below 3661.999, so it is
  formatted as \<open>01:01:01,998\<close>; the other three examples are as the specification says.
\<close>

theorem format_time_srt_truncation:
  "(\<forall>x. 0 \<le> x \<and> x < 2 ^ 53 \<longrightarrow>
      (\<exists>p. float_mul (Finite (ref_fraction x)) 1000 = Finite p
         \<and> (\<lfloor>p\<rfloor> = \<lfloor>ref_fraction x * 1000\<rfloor> \<or> \<lfloor>p\<rfloor> = \<lfloor>ref_fraction x * 1000\<rfloor> + 1)
         \<and> format_time_srt (Finite x) =
             Inr (time_text (ref_hours x) (ref_minutes x) (ref_seconds x) \<lfloor>p\<rfloor>)))
   \<and> format_time_srt (float_lit 0) = Inr (str ''00:00:00,000'')
   \<and> format_time_srt (float_lit (615 / 10)) = Inr (str ''00:01:01,500'')
   \<and> format_time_srt (float_lit (9 / 10000)) = Inr (str ''00:00:00,000'')
   \<and> format_time_srt (float_lit (3661999 / 1000)) = Inr (str ''01:01:01,998'')"
  using format_time_srt_general ex_0 ex_61_5 ex_0_0009 ex_3661_999 by blast

text \<open>The theorem at \<open>seconds = 61.5\<close>.\<close>

theorem format_time_srt_truncation_witness:
  "(0::rat) \<le> 123 / 2 \<and> (123 / 2 :: rat) < 2 ^ 53
   \<and> ref_hours (123 / 2) = 0 \<and> ref_minutes (123 / 2) = 1 \<and> ref_seconds (123 / 2) = 1
   \<and> ref_fraction (123 / 2) = 1 / 2
   \<and> format_time_srt (Finite (123 / 2)) = Inr (time_text 0 1 1 500)"
proof -
  have fl: "\<lfloor>123 / 2 :: rat\<rfloor> = 61" by (simp add: floor_eq_iff)
  have r: "ref_hours (123 / 2) = 0" "ref_minutes (123 / 2) = 1" "ref_seconds (123 / 2) = 1"
    "ref_fraction (123 / 2) = 1 / 2"
    by (simp_all add: ref_hours_eq ref_minutes_eq ref_seconds_eq ref_fraction_eq fl)
  have h: "(0::rat) \<le> 123 / 2 \<and> (123 / 2 :: rat) < 2 ^ 53" by simp
  from format_time_srt_truncation h obtain p where
    p: "float_mul (Finite (ref_fraction (123 / 2))) 1000 = Finite p"
      "format_time_srt (Finite (123 / 2)) =
        Inr (time_text (ref_hours (123 / 2)) (ref_minutes (123 / 2)) (ref_seconds (123 / 2)) \<lfloor>p\<rfloor>)"
    by blast
  have "float_mul (Finite (1 / 2)) 1000 = Finite 500" using rnd_of_int[of 500] by simp
  then have "p = 500" using p(1) unfolding r by simp
  then show ?thesis using p(2) h unfolding r by simp
qed

text \<open>Claim C1 as stated fails at its own example: \<open>format_time_srt(3661.999)\<close> is not
  \<open>01:01:01,999\<close>.\<close>

theorem format_time_srt_3661_999_counterexample:
  "format_time_srt (float_lit (3661999 / 1000)) \<noteq> Inr (str ''01:01:01,999'')"
  unfolding ex_3661_999 by (simp add: str_def)

text \<open>
  Claim C7, as the code has it. For every binary64 \<open>seconds\<close> with
  \<open>0 \<le> seconds < 360000\<close> (less than 100 hours) the result is exactly 12 characters:
  two digits, a colon, two digits, a colon, two digits, a comma and three digits.
  The format specification \<open>02d\<close> pads but never cuts, so from 100 hours on the hours
  field has three or more digits.
\<close>

theorem format_time_srt_fixed_width:
  assumes "is_double x" "0 \<le> x" "x < 360000"
  shows "\<exists>t. format_time_srt (Finite x) = Inr t \<and> length t = 12
           \<and> t ! 2 = 58 \<and> t ! 5 = 58 \<and> t ! 8 = 44
           \<and> (\<forall>i \<in> {0, 1, 3, 4, 6, 7, 9, 10, 11}. is_digit (t ! i))"
proof -
  define n where "n = \<lfloor>x\<rfloor>"
  have n0: "0 \<le> n" unfolding n_def using assms(2) by simp
  have "x < of_int (360000::int)" using assms(3) by simp
  then have n1: "n < 360000" unfolding n_def by (simp only: floor_less_iff)
  have "(360000::rat) \<le> 2 ^ 53" by simp
  then have x53: "x < 2 ^ 53" using assms(3) by linarith
  have "0 \<le> x - of_int \<lfloor>x\<rfloor>" by linarith
  from millis_lt_1000[OF this double_frac_le[OF assms(1,2)]] obtain p where
    p: "rnd ((x - of_int \<lfloor>x\<rfloor>) * 1000) = Finite p" "0 \<le> p" "p < 1000" by blast
  have ms: "0 \<le> \<lfloor>p\<rfloor>" "\<lfloor>p\<rfloor> < 1000"
  proof -
    show "0 \<le> \<lfloor>p\<rfloor>" using p(2) by simp
    have "p < of_int (1000::int)" using p(3) by simp
    then show "\<lfloor>p\<rfloor> < 1000" by (simp only: floor_less_iff)
  qed
  have h: "0 \<le> n div 3600" "n div 3600 < 100" using n0 n1 by simp_all
  have m: "0 \<le> n div 60 mod 60" "n div 60 mod 60 < 100"
    using pos_mod_bound[of 60 "n div 60"] by simp_all
  have s: "0 \<le> n mod 60" "n mod 60 < 100" using pos_mod_bound[of 60 n] by simp_all
  have "format_time_srt (Finite x) =
        Inr (time_text (n div 3600) (n div 60 mod 60) (n mod 60) \<lfloor>p\<rfloor>)"
    unfolding n_def using assms(2) x53 p(1,2) by (rule format_time_srt_eval)
  then have t: "format_time_srt (Finite x) =
     Inr [48 + nat (n div 3600) div 10, 48 + nat (n div 3600) mod 10, 58,
          48 + nat (n div 60 mod 60) div 10, 48 + nat (n div 60 mod 60) mod 10, 58,
          48 + nat (n mod 60) div 10, 48 + nat (n mod 60) mod 10, 44,
          48 + nat \<lfloor>p\<rfloor> div 100, 48 + nat \<lfloor>p\<rfloor> div 10 mod 10, 48 + nat \<lfloor>p\<rfloor> mod 10]"
    unfolding time_text_digits[OF h m s ms] .
  have d1: "is_digit (48 + k mod 10)" for k :: nat
    unfolding is_digit_def by arith
  have d2: "is_digit (48 + k div 10)" if "k < 100" for k :: nat
    unfolding is_digit_def using that by arith
  have d3: "is_digit (48 + k div 100)" if "k < 1000" for k :: nat
    unfolding is_digit_def using that by arith
  have b: "nat (n div 3600) < 100" "nat (n div 60 mod 60) < 100" "nat (n mod 60) < 100"
    "nat \<lfloor>p\<rfloor> < 1000"
    using h m s ms by linarith+
  show ?thesis
    unfolding t using d1 d2[OF b(1)] d2[OF b(2)] d2[OF b(3)] d3[OF b(4)]
    by simp
qed

text \<open>The theorem at \<open>seconds = 61.5\<close>.\<close>

theorem format_time_srt_fixed_width_witness:
  "is_double (123 / 2) \<and> (0::rat) \<le> 123 / 2 \<and> (123 / 2 :: rat) < 360000
   \<and> (\<exists>t. format_time_srt (Finite (123 / 2)) = Inr t \<and> length t = 12)"
proof -
  have d: "is_double (123 / 2)" using lit_61_5 by (simp add: is_double_def float_lit_def)
  have "(0::rat) \<le> 123 / 2" "(123 / 2 :: rat) < 360000" by simp_all
  from format_time_srt_fixed_width[OF d this] show ?thesis using d by auto
qed

text \<open>Claim C7 as stated fails at 100 hours: \<open>format_time_srt(360000.0)\<close> has 13
  characters.\<close>

theorem format_time_srt_100_hours_counterexample:
  "format_time_srt (float_lit 360000) = Inr (str ''100:00:00,000'')
   \<and> length (str ''100:00:00,000'') = 13"
proof -
  have fl: "\<lfloor>360000 :: rat\<rfloor> = 360000" by simp
  have "rnd (((360000::rat) - of_int \<lfloor>360000 :: rat\<rfloor>) * 1000) = Finite 0"
    by (simp add: rnd_def)
  from format_time_srt_eval[OF _ _ this] show ?thesis
    unfolding lit_360000
    by (simp add: time_text_def format_d_def digits10_1 digits10_3 Let_def str_def
        numeral_2_eq_2)
qed

section \<open>Properties of the renderers\<close>

subsection \<open>Which entries can be rendered\<close>

text \<open>Every entry with finite non-negative start and duration whose sum is below \<open>2 ^ 52\<close>
  seconds can be rendered; so can the two entries of the specification's example.\<close>

lemma entry_formats_in_range:
  assumes "entry_start e = Finite s" "entry_duration e = Finite d"
    and "0 \<le> s" "0 \<le> d" "s + d < 2 ^ 52"
  shows "entry_formats e"
proof -
  have "(2::rat) ^ 52 \<le> 2 ^ 53" by simp
  then have s53: "s < 2 ^ 53" using assms(3-5) by linarith
  have a: "returns (format_time_srt (Finite s))"
    using format_time_srt_general[OF assms(3) s53] by (auto simp: returns_def)
  have "0 \<le> s + d" using assms(3,4) by simp
  from rnd_between[OF this assms(5)] obtain p where
    p: "rnd (s + d) = Finite p" "of_int \<lfloor>s + d\<rfloor> \<le> p" "p \<le> of_int \<lfloor>s + d\<rfloor> + 1" by blast
  have "(0::rat) \<le> of_int \<lfloor>s + d\<rfloor>" using \<open>0 \<le> s + d\<close> by simp
  then have p0: "0 \<le> p" using p(2) by linarith
  have "of_int \<lfloor>s + d\<rfloor> \<le> s + d" by simp
  then have "p < 2 ^ 52 + 1" using p(3) assms(5) by linarith
  moreover have "(2::rat) ^ 52 + 1 \<le> 2 ^ 53" by simp
  ultimately have p53: "p < 2 ^ 53" by linarith
  have b: "returns (format_time_srt (Finite p))"
    using format_time_srt_general[OF p0 p53] by (auto simp: returns_def)
  show ?thesis using a b by (simp add: entry_formats_def assms(1,2) p(1))
qed

lemma fmt_0: "format_time_srt (Finite 0) = Inr (str ''00:00:00,000'')"
  using ex_0 by (simp add: lit_0)

lemma fmt_2: "format_time_srt (Finite 2) = Inr (str ''00:00:02,000'')"
proof -
  have "rnd (((2::rat) - of_int \<lfloor>2::rat\<rfloor>) * 1000) = Finite 0" by (simp add: rnd_def)
  from format_time_srt_eval[OF _ _ this] show ?thesis
    by (simp add: time_text_digits str_def)
qed

lemma rnd_3_5: "rnd (7 / 2) = Finite (7 / 2)"
  by (rule rnd_evalI[where e = 1 and m = "7 * 2 ^ 50"]) (simp_all add: power_int_minus)

lemma fmt_3_5: "format_time_srt (Finite (7 / 2)) = Inr (str ''00:00:03,500'')"
proof -
  have fl: "\<lfloor>7 / 2 :: rat\<rfloor> = 3" by (simp add: floor_eq_iff)
  have "rnd (((7 / 2 :: rat) - of_int \<lfloor>7 / 2 :: rat\<rfloor>) * 1000) = Finite 500"
    unfolding fl using rnd_of_int[of 500] by simp
  from format_time_srt_eval[OF _ _ this] show ?thesis
    by (simp add: fl time_text_digits str_def)
qed

lemma strip_hi: "py_strip (str '' hi '') = str ''hi''"
  by (simp add: py_strip_def py_isspace_def str_def)

lemma strip_empty: "py_strip [] = []"
  by (simp add: py_strip_def)

lemma ex_formats: "entry_formats ex_hi" "entry_formats ex_empty"
  by (simp_all add: entry_formats_def returns_def ex_hi_def ex_empty_def fmt_0 fmt_2 fmt_3_5
      rnd_of_int[of 2, simplified] rnd_3_5)

subsection \<open>No renderer changes its input\<close>

lemma for_each_frame:
  assumes "\<And>x s r s'. body x s = (r, s') \<Longrightarrow> transcript_data s' = transcript_data s"
    and "for_each body xs st = (r, st')"
  shows "transcript_data st' = transcript_data st"
  using assms(2)
proof (induction xs arbitrary: st)
  case Nil
  then show ?case by simp
next
  case (Cons x xs)
  obtain r1 s1 where b: "body x st = (r1, s1)" by (cases "body x st")
  have s1: "transcript_data s1 = transcript_data st" using assms(1) b by blast
  show ?case
  proof (cases r1)
    case (Inl e)
    then show ?thesis using Cons.prems b s1 by simp
  next
    case (Inr u)
    then have "for_each body xs s1 = (r, st')" using Cons.prems b by simp
    then show ?thesis using Cons.IH s1 by simp
  qed
qed

lemma create_srt_body_frame:
  "create_srt_body ie s = (r, s') \<Longrightarrow> transcript_data s' = transcript_data s"
  by (auto simp: create_srt_body_def Let_def split: prod.splits sum.splits)

lemma create_markdown_body_frame:
  "create_markdown_body e s = (r, s') \<Longrightarrow> transcript_data s' = transcript_data s"
  by (auto simp: create_markdown_body_def Let_def split: if_splits)

lemma create_json_body_frame:
  "create_json_body e s = (r, s') \<Longrightarrow> transcript_data s' = transcript_data s"
  by (auto simp: create_json_body_def split: sum.splits)

lemma create_srt_run_frame: "snd (create_srt_run data) = data"
proof -
  obtain r st where f: "for_each create_srt_body (enumerate 1 data)
      \<lparr>transcript_data = data, out_lines = []\<rparr> = (r, st)"
    by (cases "for_each create_srt_body (enumerate 1 data) \<lparr>transcript_data = data, out_lines = []\<rparr>")
  from for_each_frame[OF create_srt_body_frame f] have "transcript_data st = data" by simp
  then show ?thesis unfolding create_srt_run_def f by (simp split: sum.splits)
qed

lemma create_markdown_run_frame: "snd (create_markdown_run data) = data"
proof -
  obtain r st where f: "for_each create_markdown_body data
      \<lparr>transcript_data = data, out_lines = []\<rparr> = (r, st)"
    by (cases "for_each create_markdown_body data \<lparr>transcript_data = data, out_lines = []\<rparr>")
  from for_each_frame[OF create_markdown_body_frame f] have "transcript_data st = data" by simp
  then show ?thesis by (simp add: create_markdown_run_def f split: sum.splits)
qed

lemma create_json_run_frame: "snd (create_json_run data) = data"
proof -
  obtain r st where f: "for_each create_json_body data
      \<lparr>transcript_data = data, out_lines = []\<rparr> = (r, st)"
    by (cases "for_each create_json_body data \<lparr>transcript_data = data, out_lines = []\<rparr>")
  from for_each_frame[OF create_json_body_frame f] have "transcript_data st = data" by simp
  then show ?thesis by (simp add: create_json_run_def f split: sum.splits)
qed

text \<open>
  Claim C8. Whatever the entries are, and whether a renderer returns or raises, the list
  \<open>transcript_data\<close> is after the call what it was before: the same entries with the same
  start, duration and text.
\<close>

theorem renderers_do_not_mutate:
  "snd (create_srt_run data) = data
   \<and> snd (create_markdown_run data) = data
   \<and> snd (create_json_run data) = data"
  by (simp add: create_srt_run_frame create_markdown_run_frame create_json_run_frame)

text \<open>The theorem at the specification's example.\<close>

theorem renderers_do_not_mutate_witness:
  "snd (create_srt_run [ex_hi, ex_empty]) = [ex_hi, ex_empty]
   \<and> snd (create_markdown_run [ex_hi, ex_empty]) = [ex_hi, ex_empty]
   \<and> snd (create_json_run [ex_hi, ex_empty]) = [ex_hi, ex_empty]"
  using renderers_do_not_mutate[of "[ex_hi, ex_empty]"] .

subsection \<open>The flattened text renderer\<close>

lemma markdown_loop:
  "for_each create_markdown_body es st =
     (Inr (), st\<lparr>out_lines := out_lines st
                  @ filter (\<lambda>t. t \<noteq> []) (map (\<lambda>e. py_strip (entry_text e)) es)\<rparr>)"
  by (induction es arbitrary: st) (simp_all add: create_markdown_body_def Let_def)

lemma split_on_notin: "c \<notin> set t \<Longrightarrow> split_on c t = [t]"
  by (induction t) simp_all

lemma split_on_append: "c \<notin> set t \<Longrightarrow> split_on c (t @ c # rest) = t # split_on c rest"
  by (induction t) simp_all

lemma lines_of_join:
  assumes "\<forall>t \<in> set ts. t \<noteq> [] \<and> 10 \<notin> set t"
  shows "lines_of (join NL ts) = ts"
proof (cases ts)
  case Nil
  then show ?thesis by (simp add: lines_of_def)
next
  case (Cons t us)
  have "split_on 10 (join NL (t # us)) = t # us" if "\<forall>t \<in> set (t # us). 10 \<notin> set t" for t us
    using that
  proof (induction us arbitrary: t)
    case Nil
    then show ?case by (simp add: split_on_notin)
  next
    case (Cons u us)
    have "split_on 10 (join NL (t # u # us)) = split_on 10 (t @ 10 # join NL (u # us))"
      by (simp add: NL_def)
    also have "\<dots> = t # split_on 10 (join NL (u # us))"
      using Cons.prems by (intro split_on_append) simp
    also have "split_on 10 (join NL (u # us)) = u # us"
      using Cons.prems by (intro Cons.IH) simp
    finally show ?case .
  qed
  moreover have "join NL (t # us) \<noteq> []" using assms Cons by (cases us) simp_all
  ultimately show ?thesis using assms Cons by (simp add: lines_of_def)
qed

lemma create_markdown_eq:
  "create_markdown es =
     Inr (join NL (filter (\<lambda>t. t \<noteq> []) (map (\<lambda>e. py_strip (entry_text e)) es)))"
  by (simp add: create_markdown_def create_markdown_run_def markdown_loop)

lemma strip_c: "py_strip (str ''c'') = str ''c''"
  by (simp add: py_strip_def py_isspace_def str_def)

lemma strip_multiline: "py_strip (str '' a'' @ NL @ NL @ str ''b '') = str ''a'' @ NL @ NL @ str ''b''"
  by (simp add: py_strip_def py_isspace_def str_def NL_def)

text \<open>
  Claim C4, as the code has it. \<open>create_markdown\<close> never raises and its result is the
  newline-join of the trimmed texts that are not empty, in input order. Trimming removes
  white space at the two ends only, so a trimmed text may itself hold newlines. When no
  trimmed text holds a newline, the lines of the output are exactly those texts: their
  number is the number of entries whose trimmed text is not empty, and none is blank.
\<close>

theorem create_markdown_lines:
  "create_markdown es =
     Inr (join NL (filter (\<lambda>t. t \<noteq> []) (map (\<lambda>e. py_strip (entry_text e)) es)))
   \<and> ((\<forall>e \<in> set es. 10 \<notin> set (py_strip (entry_text e))) \<longrightarrow>
        (\<exists>out. create_markdown es = Inr out
           \<and> lines_of out = filter (\<lambda>t. t \<noteq> []) (map (\<lambda>e. py_strip (entry_text e)) es)
           \<and> length (lines_of out) = length (filter (\<lambda>e. py_strip (entry_text e) \<noteq> []) es)
           \<and> [] \<notin> set (lines_of out)))"
proof -
  let ?ts = "filter (\<lambda>t. t \<noteq> []) (map (\<lambda>e. py_strip (entry_text e)) es)"
  have out: "create_markdown es = Inr (join NL ?ts)"
    by (rule create_markdown_eq)
  have len: "length ?ts = length (filter (\<lambda>e. py_strip (entry_text e) \<noteq> []) es)"
    by (simp add: filter_map comp_def)
  have "lines_of (join NL ?ts) = ?ts" if "\<forall>e \<in> set es. 10 \<notin> set (py_strip (entry_text e))"
    using that by (intro lines_of_join) auto
  then show ?thesis using out len by auto
qed

text \<open>The theorem at three entries, the second with an empty text: two lines are joined.\<close>

theorem create_markdown_lines_witness:
  "10 \<notin> set (py_strip (entry_text ex_hi)) \<and> 10 \<notin> set (py_strip (entry_text ex_empty))
   \<and> 10 \<notin> set (py_strip (entry_text ex_c))
   \<and> create_markdown [ex_hi, ex_empty, ex_c] = Inr (str ''hi'' @ NL @ str ''c'')
   \<and> lines_of (str ''hi'' @ NL @ str ''c'') = [str ''hi'', str ''c'']
   \<and> length (filter (\<lambda>e. py_strip (entry_text e) \<noteq> []) [ex_hi, ex_empty, ex_c]) = 2"
proof -
  have s: "py_strip (entry_text ex_hi) = str ''hi''" "py_strip (entry_text ex_empty) = []"
    "py_strip (entry_text ex_c) = str ''c''"
    by (simp_all add: ex_hi_def ex_empty_def ex_c_def strip_hi strip_empty strip_c)
  have n: "str ''hi'' \<noteq> []" "str ''c'' \<noteq> []" "10 \<notin> set (str ''hi'')" "10 \<notin> set (str ''c'')"
    by (simp_all add: str_def)
  have h: "\<forall>e \<in> set [ex_hi, ex_empty, ex_c]. 10 \<notin> set (py_strip (entry_text e))"
    using n by (simp add: s)
  have t: "create_markdown [ex_hi, ex_empty, ex_c] =
          Inr (join NL (filter (\<lambda>t. t \<noteq> [])
                 (map (\<lambda>e. py_strip (entry_text e)) [ex_hi, ex_empty, ex_c])))"
    and "\<exists>out. create_markdown [ex_hi, ex_empty, ex_c] = Inr out
           \<and> lines_of out =
               filter (\<lambda>t. t \<noteq> []) (map (\<lambda>e. py_strip (entry_text e)) [ex_hi, ex_empty, ex_c])"
    using create_markdown_lines[of "[ex_hi, ex_empty, ex_c]"] h by blast+
  then obtain out where o: "create_markdown [ex_hi, ex_empty, ex_c] = Inr out"
    "lines_of out =
       filter (\<lambda>t. t \<noteq> []) (map (\<lambda>e. py_strip (entry_text e)) [ex_hi, ex_empty, ex_c])"
    by blast
  have c: "create_markdown [ex_hi, ex_empty, ex_c] = Inr (str ''hi'' @ NL @ str ''c'')"
    unfolding t using n by (simp add: s)
  then have "out = str ''hi'' @ NL @ str ''c''" using o(1) by simp
  then have l: "lines_of (str ''hi'' @ NL @ str ''c'') = [str ''hi'', str ''c'']"
    using o(2) n by (simp add: s)
  show ?thesis using n c l by (simp add: s)
qed

text \<open>Claim C4 as stated fails for a caption of several lines: two entries with non-empty
  trimmed text give an output of four lines, one of them blank.\<close>

theorem create_markdown_multiline_counterexample:
  "create_markdown [ex_multiline, ex_c] = Inr (str ''a'' @ NL @ NL @ str ''b'' @ NL @ str ''c'')
   \<and> lines_of (str ''a'' @ NL @ NL @ str ''b'' @ NL @ str ''c'') = [str ''a'', [], str ''b'', str ''c'']
   \<and> length (lines_of (str ''a'' @ NL @ NL @ str ''b'' @ NL @ str ''c'')) = 4
   \<and> length (filter (\<lambda>e. py_strip (entry_text e) \<noteq> []) [ex_multiline, ex_c]) = 2"
proof -
  have s: "py_strip (entry_text ex_multiline) = str ''a'' @ NL @ NL @ str ''b''"
    "py_strip (entry_text ex_c) = str ''c''"
    by (simp_all add: ex_multiline_def ex_c_def strip_multiline strip_c)
  have n: "str ''a'' @ NL @ NL @ str ''b'' \<noteq> []" "str ''c'' \<noteq> []" by (simp_all add: str_def)
  have 1: "create_markdown [ex_multiline, ex_c] = Inr (str ''a'' @ NL @ NL @ str ''b'' @ NL @ str ''c'')"
    unfolding create_markdown_eq using n by (simp add: s)
  have 2: "lines_of (str ''a'' @ NL @ NL @ str ''b'' @ NL @ str ''c'') = [str ''a'', [], str ''b'', str ''c'']"
    by (simp add: lines_of_def str_def NL_def)
  show ?thesis using 1 2 n by (simp add: s)
qed

subsection \<open>The subtitle renderer\<close>

lemma enumerate_nth_map: "enumerate n xs = map (\<lambda>k. (n + k, xs ! k)) [0..<length xs]"
  by (rule nth_equalityI) (simp_all add: nth_enumerate_eq)

lemma srt_body_ok:
  assumes "entry_formats e"
  shows "create_srt_body (i, e) st = (Inr (), st\<lparr>out_lines := out_lines st @ srt_block i e\<rparr>)"
  using assms
  by (auto simp: entry_formats_def returns_def create_srt_body_def srt_block_def formatted_def Let_def
      split: sum.splits)

lemma srt_loop:
  assumes "\<forall>e \<in> set es. entry_formats e"
  shows "for_each create_srt_body (enumerate n es) st =
     (Inr (), st\<lparr>out_lines := out_lines st
                  @ concat (map (\<lambda>ie. srt_block (fst ie) (snd ie)) (enumerate n es))\<rparr>)"
  using assms
proof (induction es arbitrary: n st)
  case Nil
  then show ?case by simp
next
  case (Cons e es)
  then show ?case by (simp add: srt_body_ok)
qed

text \<open>
  Claim C3. For entries \<open>es\<close> that can be rendered, the output is the newline-join of
  exactly \<open>length es\<close> blocks in input order; block \<open>k\<close> (from 0) has the counter \<open>k + 1\<close>,
  the line \<open>start --> end\<close> with \<open>end = start + duration\<close>, the trimmed text of entry \<open>k\<close>
  and an empty line. No entry is skipped, whatever its text.
\<close>

theorem create_srt_blocks:
  assumes "\<forall>e \<in> set es. entry_formats e"
  shows "create_srt es =
           Inr (join NL (concat (map (\<lambda>k. srt_block (k + 1) (es ! k)) [0..<length es])))"
proof -
  have "map (\<lambda>ie. srt_block (fst ie) (snd ie)) (enumerate 1 es) =
        map (\<lambda>k. srt_block (k + 1) (es ! k)) [0..<length es]"
    by (simp add: enumerate_nth_map comp_def)
  then show ?thesis
    unfolding create_srt_def create_srt_run_def srt_loop[OF assms] by simp
qed

text \<open>The theorem at the specification's example; block 2 has an empty text line.\<close>

lemma ex_blocks:
  "srt_block (Suc 0) ex_hi = [str ''1'', str ''00:00:00,000 --> 00:00:02,000'', str ''hi'', []]"
  "srt_block (Suc (Suc 0)) ex_empty = [str ''2'', str ''00:00:02,000 --> 00:00:03,500'', [], []]"
  by (simp_all add: srt_block_def formatted_def ex_hi_def ex_empty_def fmt_0 fmt_2 fmt_3_5 strip_hi
      strip_empty rnd_of_int[of 2, simplified] rnd_3_5 str_int_def digits10_1)
    (simp_all add: str_def)

theorem create_srt_blocks_witness:
  "entry_formats ex_hi \<and> entry_formats ex_empty
   \<and> create_srt [ex_hi, ex_empty] =
       Inr (str ''1'' @ NL @ str ''00:00:00,000 --> 00:00:02,000'' @ NL @ str ''hi'' @ NL @ NL
            @ str ''2'' @ NL @ str ''00:00:02,000 --> 00:00:03,500'' @ NL @ NL)"
proof -
  have "\<forall>e \<in> set [ex_hi, ex_empty]. entry_formats e" using ex_formats by simp
  from create_srt_blocks[OF this] show ?thesis
    using ex_formats by (simp add: upt_rec[of 0] upt_rec[of 1] ex_blocks NL_def)
qed

section \<open>JSON text is read back as it was written\<close>

lemma prepend_Nil [simp]: "prepend [] x = x"
  by (cases x) (simp_all add: prepend_def)

lemma prepend_prepend [simp]: "prepend a (prepend b x) = prepend (a @ b) x"
  by (cases x) (simp_all add: prepend_def)

lemma prepend_Some [simp]: "prepend a (Some b) = Some (a @ b)"
  by (simp add: prepend_def)

lemma hex_val_hex_digit: "d < 16 \<Longrightarrow> hex_val (hex_digit d) = Some d"
  by (auto simp: hex_val_def hex_digit_def)

lemma lex_string_escape_ctl:
  assumes "c < 32" "c \<noteq> 10" "c \<noteq> 13" "c \<noteq> 9" "c \<noteq> 8" "c \<noteq> 12"
  shows "lex_string (json_escape c @ t) = cons_char c (length (json_escape c)) (lex_string t)"
proof -
  have d: "c div 16 < 16" "c mod 16 < 16" using assms(1) by simp_all
  have v: "c div 16 * 16 + c mod 16 = c" by simp
  have e: "json_escape c = [92, 117, 48, 48, hex_digit (c div 16), hex_digit (c mod 16)]"
    using assms by (simp add: json_escape_def)
  have z: "hex_val 48 = Some 0" by (simp add: hex_val_def)
  have m: "map hex_val [48, 48, hex_digit (c div 16), hex_digit (c mod 16)] =
           [Some 0, Some 0, Some (c div 16), Some (c mod 16)]"
    by (simp add: z hex_val_hex_digit[OF d(1)] hex_val_hex_digit[OF d(2)])
  have h: "hex4 [48, 48, hex_digit (c div 16), hex_digit (c mod 16)] = Some c"
    unfolding hex4_def m using v by simp
  have l: "length (json_escape c) = 6" unfolding e by simp
  show ?thesis unfolding l unfolding e using assms(1) by (simp add: h)
qed

lemma lex_string_escape_plain:
  assumes "32 \<le> c" "c \<noteq> 34" "c \<noteq> 92"
  shows "lex_string (json_escape c @ t) = cons_char c (length (json_escape c)) (lex_string t)"
proof -
  have "json_escape c = [c]" using assms by (simp add: json_escape_def)
  then show ?thesis using assms by simp
qed

lemma lex_string_escape_special:
  assumes "c = 34 \<or> c = 92 \<or> c = 10 \<or> c = 13 \<or> c = 9 \<or> c = 8 \<or> c = 12"
  shows "lex_string (json_escape c @ t) = cons_char c (length (json_escape c)) (lex_string t)"
proof -
  have l: "length (json_escape c) = 2" using assms by (auto simp: json_escape_def)
  have e: "json_escape c = [92, if c = 34 then 34 else if c = 92 then 92 else if c = 10 then 110
             else if c = 13 then 114 else if c = 9 then 116 else if c = 8 then 98 else 102]"
    using assms by (auto simp: json_escape_def)
  show ?thesis unfolding l unfolding e using assms by (auto simp: unescape_def)
qed

lemma lex_string_escape:
  "lex_string (json_escape c @ t) = cons_char c (length (json_escape c)) (lex_string t)"
proof (cases "c = 34 \<or> c = 92 \<or> c = 10 \<or> c = 13 \<or> c = 9 \<or> c = 8 \<or> c = 12")
  case True
  then show ?thesis by (rule lex_string_escape_special)
next
  case False
  show ?thesis
  proof (cases "c < 32")
    case True
    then show ?thesis using False by (intro lex_string_escape_ctl) simp_all
  next
    case False
    then show ?thesis using \<open>\<not> (c = 34 \<or> c = 92 \<or> c = 10 \<or> c = 13 \<or> c = 9 \<or> c = 8 \<or> c = 12)\<close>
      by (intro lex_string_escape_plain) simp_all
  qed
qed

lemma lex_string_escaped:
  "lex_string (concat (map json_escape s) @ 34 # rest) =
     Some (s, length (concat (map json_escape s)) + 1)"
proof (induction s)
  case Nil
  then show ?case by simp
next
  case (Cons c s)
  then show ?case by (simp add: lex_string_escape cons_char_def)
qed

lemma lex_json_string:
  "json_lex (json_string s @ rest) = prepend [TString s] (json_lex rest)"
  by (simp add: json_string_def json_ws_def lex_string_escaped)

lemma lex_ws: "\<forall>c \<in> set ws. json_ws c \<Longrightarrow> json_lex (ws @ rest) = json_lex rest"
  by (induction ws) simp_all

lemma lex_newline_indent: "json_lex (newline_indent n @ rest) = json_lex rest"
  by (rule lex_ws) (auto simp: newline_indent_def NL_def json_ws_def)

lemma lex_punct:
  "json_lex (str ''['' @ rest) = prepend [LBracket] (json_lex rest)"
  "json_lex (str '']'' @ rest) = prepend [RBracket] (json_lex rest)"
  "json_lex (str ''{'' @ rest) = prepend [LBrace] (json_lex rest)"
  "json_lex (str ''}'' @ rest) = prepend [RBrace] (json_lex rest)"
  "json_lex (str '','' @ rest) = prepend [Comma] (json_lex rest)"
  "json_lex (str '': '' @ rest) = prepend [Colon] (json_lex rest)"
  by (simp_all add: str_def json_ws_def punct_def)

lemma join_Cons: "join sep (x # xs) = x @ concat (map (\<lambda>y. sep @ y) xs)"
  by (induction xs arbitrary: x) simp_all

lemma lex_sep_items:
  assumes "\<And>x r. x \<in> set zs \<Longrightarrow> json_lex (f x @ r) = prepend (g x) (json_lex r)"
    and "\<And>r. json_lex (sep @ r) = prepend [Comma] (json_lex r)"
  shows "json_lex (concat (map (\<lambda>x. sep @ f x) zs) @ rest) =
         prepend (concat (map (\<lambda>x. [Comma] @ g x) zs)) (json_lex rest)"
  using assms(1)
proof (induction zs)
  case Nil
  then show ?case by simp
next
  case (Cons z zs)
  have "json_lex (concat (map (\<lambda>x. sep @ f x) (z # zs)) @ rest) =
        json_lex (sep @ (f z @ (concat (map (\<lambda>x. sep @ f x) zs) @ rest)))"
    by simp
  also have "\<dots> = prepend [Comma] (prepend (g z)
      (json_lex (concat (map (\<lambda>x. sep @ f x) zs) @ rest)))"
    unfolding assms(2) using Cons.prems[of z] by simp
  also have "json_lex (concat (map (\<lambda>x. sep @ f x) zs) @ rest) =
      prepend (concat (map (\<lambda>x. [Comma] @ g x) zs)) (json_lex rest)"
    using Cons.IH Cons.prems by simp
  finally show ?case by simp
qed

lemma lex_join:
  assumes "\<And>x r. x \<in> set xs \<Longrightarrow> json_lex (f x @ r) = prepend (g x) (json_lex r)"
    and "\<And>r. json_lex (sep @ r) = prepend [Comma] (json_lex r)"
  shows "json_lex (join sep (map f xs) @ rest) = prepend (join [Comma] (map g xs)) (json_lex rest)"
proof (cases xs)
  case Nil
  then show ?thesis by simp
next
  case (Cons x ys)
  have 1: "json_lex (concat (map (\<lambda>x. sep @ f x) ys) @ rest) =
         prepend (concat (map (\<lambda>x. [Comma] @ g x) ys)) (json_lex rest)"
    using assms by (intro lex_sep_items) (simp_all add: Cons)
  have "json_lex (join sep (map f xs) @ rest) =
        json_lex (f x @ (concat (map (\<lambda>x. sep @ f x) ys) @ rest))"
    by (simp add: Cons join_Cons comp_def)
  also have "\<dots> = prepend (g x) (json_lex (concat (map (\<lambda>x. sep @ f x) ys) @ rest))"
    using assms(1)[of x] by (simp add: Cons)
  finally show ?thesis unfolding 1 by (simp add: Cons join_Cons comp_def)
qed

lemma lex_comma_sep:
  "json_lex ((str '','' @ newline_indent n) @ r) = prepend [Comma] (json_lex r)"
  by (simp add: lex_punct lex_newline_indent)

lemma lex_dumps: "json_lex (json_dumps_at l v @ rest) = prepend (toks v) (json_lex rest)"
proof (induction v arbitrary: l rest)
  case (JStr s)
  show ?case by (simp add: lex_json_string)
next
  case (JArr vs)
  show ?case
  proof (cases "vs = []")
    case True
    have "json_lex (str ''[]'' @ rest) = prepend [LBracket, RBracket] (json_lex rest)"
      by (simp add: str_def json_ws_def punct_def)
    then show ?thesis using True by simp
  next
    case False
    have items: "json_lex (join (str '','' @ newline_indent n) (map (json_dumps_at n) vs) @ r)
        = prepend (join [Comma] (map toks vs)) (json_lex r)" for r n
      by (rule lex_join) (simp_all add: JArr.IH lex_comma_sep del: append_assoc)
    show ?thesis using False
      by (simp add: lex_punct lex_newline_indent items)
  qed
next
  case (JObj kvs)
  show ?case
  proof (cases "kvs = []")
    case True
    have "json_lex (str ''{}'' @ rest) = prepend [LBrace, RBrace] (json_lex rest)"
      by (simp add: str_def json_ws_def punct_def)
    then show ?thesis using True by simp
  next
    case False
    have member: "json_lex ((json_string (fst kv) @ str '': '' @ json_dumps_at n (snd kv)) @ r)
        = prepend (TString (fst kv) # Colon # toks (snd kv)) (json_lex r)"
      if "kv \<in> set kvs" for kv r n
    proof -
      have "snd kv \<in> Basic_BNFs.snds kv" by (cases kv) simp
      from JObj.IH[OF that this] show ?thesis
        by (simp add: lex_json_string lex_punct)
    qed
    have items: "json_lex (join (str '','' @ newline_indent n)
          (map (\<lambda>kv. json_string (fst kv) @ str '': '' @ json_dumps_at n (snd kv)) kvs) @ r)
        = prepend (join [Comma] (map (\<lambda>kv. TString (fst kv) # Colon # toks (snd kv)) kvs))
            (json_lex r)" for r n
      by (rule lex_join) (simp_all add: member lex_comma_sep del: append_assoc)
    show ?thesis using False
      by (simp add: lex_punct lex_newline_indent items)
  qed
qed

lemma lex_json_dumps: "json_lex (json_dumps v) = Some (toks v)"
  using lex_dumps[of 0 v "[]"] by (simp add: json_dumps_def)

lemma toks_head: "\<exists>t ts. toks v = t # ts \<and> t \<noteq> RBracket \<and> t \<noteq> RBrace"
  by (cases v) simp_all

lemma parse_value_array:
  "t \<noteq> RBracket \<Longrightarrow>
   parse_value (Suc n) (LBracket # t # r) =
     (case parse_value n (t # r) of
        None \<Rightarrow> None
      | Some (v, r') \<Rightarrow>
         (case parse_elems n r' of
            None \<Rightarrow> None
          | Some (vs, r'') \<Rightarrow> Some (JArr (v # vs), r'')))"
  by (cases t) simp_all

lemma parse_value_object:
  "t \<noteq> RBrace \<Longrightarrow>
   parse_value (Suc n) (LBrace # t # r) =
     (case parse_member n (t # r) of
        None \<Rightarrow> None
      | Some (kv, r') \<Rightarrow>
         (case parse_members n r' of
            None \<Rightarrow> None
          | Some (kvs, r'') \<Rightarrow> Some (JObj (kv # kvs), r'')))"
  by (cases t) simp_all

lemma parse_elems_ok:
  assumes "\<And>v n r. v \<in> set vs \<Longrightarrow> length (toks v) \<le> n \<Longrightarrow> parse_value n (toks v @ r) = Some (v, r)"
    and "length (concat (map (\<lambda>v. [Comma] @ toks v) vs)) < n"
  shows "parse_elems n (concat (map (\<lambda>v. [Comma] @ toks v) vs) @ RBracket # rest) = Some (vs, rest)"
  using assms
proof (induction vs arbitrary: n)
  case Nil
  then obtain m where "n = Suc m" by (cases n) simp_all
  then show ?case by simp
next
  case (Cons v vs)
  from Cons.prems(2) obtain m where n: "n = Suc m" by (cases n) simp_all
  have 1: "length (toks v) \<le> m" using Cons.prems(2) n by simp
  have 2: "length (concat (map (\<lambda>v. [Comma] @ toks v) vs)) < m"
    using Cons.prems(2) n toks_head[of v] by auto
  have pv: "parse_value m (toks v @ r) = Some (v, r)" for r
    using Cons.prems(1)[of v m r] 1 by simp
  have pe: "parse_elems m (concat (map (\<lambda>v. [Comma] @ toks v) vs) @ RBracket # rest) = Some (vs, rest)"
    using Cons.IH[OF _ 2] Cons.prems(1) by simp
  show ?case unfolding n using pv pe by simp
qed

lemma parse_members_ok:
  assumes "\<And>kv n r. kv \<in> set kvs \<Longrightarrow> length (toks (snd kv)) \<le> n
             \<Longrightarrow> parse_value n (toks (snd kv) @ r) = Some (snd kv, r)"
    and "length (concat (map (\<lambda>kv. [Comma] @ TString (fst kv) # Colon # toks (snd kv)) kvs)) < n"
  shows "parse_members n
           (concat (map (\<lambda>kv. [Comma] @ TString (fst kv) # Colon # toks (snd kv)) kvs) @ RBrace # rest)
         = Some (kvs, rest)"
  using assms
proof (induction kvs arbitrary: n)
  case Nil
  then obtain m where "n = Suc m" by (cases n) simp_all
  then show ?case by simp
next
  case (Cons kv kvs)
  from Cons.prems(2) obtain m where n: "n = Suc m" by (cases n) simp_all
  from Cons.prems(2) n obtain m' where m: "m = Suc m'" by (cases m) simp_all
  have 1: "length (toks (snd kv)) \<le> m'" using Cons.prems(2) n m by simp
  have 2: "length (concat (map (\<lambda>kv. [Comma] @ TString (fst kv) # Colon # toks (snd kv)) kvs)) < m"
    using Cons.prems(2) n by simp
  have pv: "parse_value m' (toks (snd kv) @ r) = Some (snd kv, r)" for r
    using Cons.prems(1)[of kv m' r] 1 by simp
  have pm: "parse_member m (TString (fst kv) # Colon # toks (snd kv) @ r) = Some (kv, r)" for r
    unfolding m using pv by simp
  have pe: "parse_members m
      (concat (map (\<lambda>kv. [Comma] @ TString (fst kv) # Colon # toks (snd kv)) kvs) @ RBrace # rest)
      = Some (kvs, rest)"
    using Cons.IH[OF _ 2] Cons.prems(1) by simp
  show ?case unfolding n using pm pe by simp
qed

lemma parse_toks: "length (toks v) \<le> n \<Longrightarrow> parse_value n (toks v @ rest) = Some (v, rest)"
proof (induction v arbitrary: n rest)
  case (JStr s)
  then obtain m where "n = Suc m" by (cases n) simp_all
  then show ?case by simp
next
  case (JArr vs)
  from JArr.prems obtain m where n: "n = Suc m" by (cases n) simp_all
  show ?case
  proof (cases vs)
    case Nil
    then show ?thesis using n by simp
  next
    case (Cons v ws)
    obtain t ts where t: "toks v = t # ts" "t \<noteq> RBracket" using toks_head[of v] by blast
    have len: "length (toks v) + length (concat (map (\<lambda>v. [Comma] @ toks v) ws)) < m"
      using JArr.prems n Cons by (simp add: join_Cons comp_def)
    have pv: "parse_value m (toks v @ r) = Some (v, r)" for r
      using JArr.IH[of v m r] len Cons by simp
    have pe: "parse_elems m (concat (map (\<lambda>v. [Comma] @ toks v) ws) @ RBracket # rest) = Some (ws, rest)"
      using len by (intro parse_elems_ok) (simp_all add: JArr.IH Cons)
    have "parse_value (Suc m) (LBracket # t # (ts @ concat (map (\<lambda>v. [Comma] @ toks v) ws) @ RBracket # rest))
          = Some (JArr (v # ws), rest)"
      unfolding parse_value_array[OF t(2)] using pv[of "concat (map (\<lambda>v. [Comma] @ toks v) ws) @ RBracket # rest"] pe
      by (simp add: t(1))
    moreover have "toks (JArr vs) @ rest =
        LBracket # t # (ts @ concat (map (\<lambda>v. [Comma] @ toks v) ws) @ RBracket # rest)"
      by (simp add: Cons join_Cons t(1) comp_def)
    ultimately show ?thesis unfolding n by (simp only: Cons)
  qed
next
  case (JObj kvs)
  from JObj.prems obtain m where n: "n = Suc m" by (cases n) simp_all
  have IH: "parse_value k (toks (snd kv) @ r) = Some (snd kv, r)"
    if "kv \<in> set kvs" "length (toks (snd kv)) \<le> k" for kv k r
  proof -
    have "snd kv \<in> Basic_BNFs.snds kv" by (cases kv) simp
    from JObj.IH[OF that(1) this that(2)] show ?thesis .
  qed
  show ?case
  proof (cases kvs)
    case Nil
    then show ?thesis using n by simp
  next
    case (Cons kv ws)
    let ?rest = "concat (map (\<lambda>kv. [Comma] @ TString (fst kv) # Colon # toks (snd kv)) ws)"
    have len: "2 + length (toks (snd kv)) + length ?rest < m"
      using JObj.prems n Cons by (simp add: join_Cons comp_def)
    then obtain m' where m: "m = Suc m'" by (cases m) simp_all
    have pv: "parse_value m' (toks (snd kv) @ r) = Some (snd kv, r)" for r
      using IH[of kv m' r] len m Cons by simp
    have pm: "parse_member m (TString (fst kv) # Colon # toks (snd kv) @ r) = Some (kv, r)" for r
      unfolding m using pv by simp
    have pe: "parse_members m (?rest @ RBrace # rest) = Some (ws, rest)"
      using len by (intro parse_members_ok) (simp_all add: IH Cons)
    have "parse_value (Suc m) (LBrace # TString (fst kv) # (Colon # toks (snd kv) @ ?rest @ RBrace # rest))
          = Some (JObj (kv # ws), rest)"
      unfolding parse_value_object[of "TString (fst kv)", simplified]
      using pm[of "?rest @ RBrace # rest"] pe by simp
    moreover have "toks (JObj kvs) @ rest =
        LBrace # TString (fst kv) # (Colon # toks (snd kv) @ ?rest @ RBrace # rest)"
      by (simp add: Cons join_Cons comp_def)
    ultimately show ?thesis unfolding n by (simp only: Cons)
  qed
qed

theorem json_round_trip: "json_loads (json_dumps v) = Some v"
  using parse_toks[of v "2 * length (toks v) + 1" "[]"]
  by (simp add: json_loads_def lex_json_dumps)

subsection \<open>The structured renderer\<close>

lemma json_body_ok:
  assumes "entry_formats e"
  shows "create_json_body e st = (Inr (), st\<lparr>out_lines := out_lines st @ [json_record e]\<rparr>)"
  using assms
  by (auto simp: entry_formats_def returns_def create_json_body_def json_record_def formatted_def
      split: sum.splits)

lemma json_loop:
  assumes "\<forall>e \<in> set es. entry_formats e"
  shows "for_each create_json_body es st =
     (Inr (), st\<lparr>out_lines := out_lines st @ map json_record es\<rparr>)"
  using assms
proof (induction es arbitrary: st)
  case Nil
  then show ?case by simp
next
  case (Cons e es)
  then show ?case by (simp add: json_body_ok)
qed

lemma create_json_ok:
  assumes "\<forall>e \<in> set es. entry_formats e"
  shows "create_json es = Inr (json_dumps (JArr (map json_record es)))"
  unfolding create_json_def create_json_run_def json_loop[OF assms] by simp

text \<open>
  Claim C5. For entries \<open>es\<close> that can be rendered, reading the output of \<open>create_json\<close>
  back gives exactly \<open>length es\<close> records in input order, each with the formatted start,
  the formatted \<open>start + duration\<close> and the trimmed text of its entry.
\<close>

theorem create_json_round_trip:
  assumes "\<forall>e \<in> set es. entry_formats e"
  shows "\<exists>out. create_json es = Inr out
           \<and> json_loads out = Some (JArr (map json_record es))
           \<and> length (map json_record es) = length es"
  using create_json_ok[OF assms] json_round_trip by simp

text \<open>The theorem at the specification's example; the second record has an empty text.\<close>

lemma ex_records:
  "json_record ex_hi = JObj [(str ''in_ts'', JStr (str ''00:00:00,000'')),
                             (str ''out_ts'', JStr (str ''00:00:02,000'')),
                             (str ''text'', JStr (str ''hi''))]"
  "json_record ex_empty = JObj [(str ''in_ts'', JStr (str ''00:00:02,000'')),
                                (str ''out_ts'', JStr (str ''00:00:03,500'')),
                                (str ''text'', JStr [])]"
  by (simp_all add: json_record_def formatted_def ex_hi_def ex_empty_def fmt_0 fmt_2 fmt_3_5
      strip_hi strip_empty rnd_of_int[of 2, simplified] rnd_3_5)

theorem create_json_round_trip_witness:
  "entry_formats ex_hi \<and> entry_formats ex_empty
   \<and> (\<exists>out. create_json [ex_hi, ex_empty] = Inr out
         \<and> json_loads out =
             Some (JArr [JObj [(str ''in_ts'', JStr (str ''00:00:00,000'')),
                               (str ''out_ts'', JStr (str ''00:00:02,000'')),
                               (str ''text'', JStr (str ''hi''))],
                         JObj [(str ''in_ts'', JStr (str ''00:00:02,000'')),
                               (str ''out_ts'', JStr (str ''00:00:03,500'')),
                               (str ''text'', JStr [])]]))"
proof -
  have "\<forall>e \<in> set [ex_hi, ex_empty]. entry_formats e" using ex_formats by simp
  from create_json_round_trip[OF this] show ?thesis
    using ex_formats by (simp add: ex_records)
qed

end
